theory Spec2Isabelle
  imports Complex_Main "HOL-Library.Product_Lexorder" "HOL-Library.Multiset"
begin

section \<open>Data model\<close>

text \<open>
  Numbers are modelled as \<open>int\<close>: the code only compares endpoints, takes the sign of a
  difference and copies them, so all that matters is that they are linearly ordered
  (finite JavaScript numbers, no NaN).

  An \<open>Interval\<close> object has the two fields \<open>a\<close> and \<open>b\<close>; the selectors are
  \<open>iv_a\<close> and \<open>iv_b\<close>.
\<close>

datatype interval = Interval (iv_a: int) (iv_b: int)

text \<open>
  Modelled from the spec: \<open>Interval.prototype.compareTo\<close> and \<open>clone\<close> belong to the
  imported package \<open>@rawify/interval\<close>. The specification requires of it a total order
  consistent with lexicographic \<open>(a,b)\<close> comparison (negative, zero, positive) and a cloning
  operation.
\<close>

definition compareTo :: "interval \<Rightarrow> interval \<Rightarrow> int" where
  "compareTo x y =
     (if iv_a x < iv_a y then - 1 else if iv_a x > iv_a y then 1
      else if iv_b x < iv_b y then - 1 else if iv_b x > iv_b y then 1 else 0)"

definition clone_iv :: "interval \<Rightarrow> interval" where
  "clone_iv x = Interval (iv_a x) (iv_b x)"

text \<open>
  A node object has the fields \<open>i\<close> (interval), \<open>v\<close> (value), \<open>m\<close> (max endpoint in
  subtree), \<open>h\<close> (height), \<open>l\<close> and \<open>r\<close> (children, possibly \<open>null\<close>). A nullable node
  reference is a \<open>node option\<close>, \<open>null\<close> being \<open>None\<close>. The height field only ever
  receives \<open>1\<close> or a maximum of heights plus one, hence \<open>nat\<close>.
\<close>

datatype 'v node =
  Node (node_i: interval) (node_v: 'v) (node_m: int) (node_h: nat)
       (node_l: "'v node option") (node_r: "'v node option")

type_synonym 'v tree = "'v node option"

text \<open>The constructor \<open>IntervalMapNode(i, v)\<close>.\<close>

definition IntervalMapNode :: "interval \<Rightarrow> 'v \<Rightarrow> 'v node" where
  "IntervalMapNode i v = Node i v (iv_b i) 1 None None"

text \<open>The map object: fields \<open>root\<close> and \<open>size\<close>.\<close>

record 'v IntervalMap =
  m_root :: "'v tree"
  m_size :: int

text \<open>
  \<open>TypeError\<close> is what JavaScript raises on a property access through \<open>null\<close> or
  \<open>undefined\<close>; \<open>InvalidArgument\<close> is the \<open>Error\<close> thrown by the \<open>instanceof\<close> guards.
\<close>

datatype error = InvalidArgument | TypeError

text \<open>
  An argument passed where an interval is expected: an instance of \<open>Interval\<close>, or any
  other JavaScript value.
\<close>

datatype argument = AnInterval interval | NotAnInterval

section \<open>Balance engine\<close>

fun height :: "'v tree \<Rightarrow> nat" where
  "height None = 0"
| "height (Some n) = node_h n"

fun update :: "'v node \<Rightarrow> 'v node" where
  "update (Node i v m h l r) =
     (let hl = height l; hr = height r;
          h' = (if hl > hr then hl else hr) + 1;
          m0 = iv_b i;
          m1 = (case l of Some lc \<Rightarrow> if node_m lc > m0 then node_m lc else m0 | None \<Rightarrow> m0);
          m2 = (case r of Some rc \<Rightarrow> if node_m rc > m1 then node_m rc else m1 | None \<Rightarrow> m1)
      in Node i v m2 h' l r)"

fun bf :: "'v node \<Rightarrow> int" where
  "bf (Node i v m h l r) = int (height l) - int (height r)"

text \<open>
  \<open>rotL(x)\<close>: \<open>y = x.r\<close>, \<open>T2 = y.l\<close>; then \<open>y.l = x\<close>, \<open>x.r = T2\<close>, \<open>update(x)\<close>,
  \<open>update(y)\<close>. Reading \<open>y.l\<close> when \<open>x.r\<close> is \<open>null\<close> raises.
\<close>

fun rotL :: "'v node \<Rightarrow> error + 'v node" where
  "rotL (Node xi xv xm xh xl xr) =
     (case xr of
        None \<Rightarrow> Inl TypeError
      | Some (Node yi yv ym yh T2 yr) \<Rightarrow>
          Inr (update (Node yi yv ym yh (Some (update (Node xi xv xm xh xl T2))) yr)))"

fun rotR :: "'v node \<Rightarrow> error + 'v node" where
  "rotR (Node yi yv ym yh yl yr) =
     (case yl of
        None \<Rightarrow> Inl TypeError
      | Some (Node xi xv xm xh xl T2) \<Rightarrow>
          Inr (update (Node xi xv xm xh xl (Some (update (Node yi yv ym yh T2 yr))))))"

fun rebalance :: "'v node \<Rightarrow> error + 'v node" where
  "rebalance (Node i v m h l r) =
     (let b = bf (Node i v m h l r) in
      if b > 1 then
        (case l of
           None \<Rightarrow> Inl TypeError
         | Some lc \<Rightarrow>
             if bf lc < 0 then
               (case rotL lc of
                  Inl e \<Rightarrow> Inl e
                | Inr l' \<Rightarrow> rotR (Node i v m h (Some l') r))
             else rotR (Node i v m h l r))
      else if b < - 1 then
        (case r of
           None \<Rightarrow> Inl TypeError
         | Some rc \<Rightarrow>
             if bf rc > 0 then
               (case rotR rc of
                  Inl e \<Rightarrow> Inl e
                | Inr r' \<Rightarrow> rotL (Node i v m h l (Some r')))
             else rotL (Node i v m h l r))
      else Inr (Node i v m h l r))"

section \<open>Mutation engine\<close>

text \<open>
  \<open>ins\<close> is the closure inside \<open>set\<close>; the captured \<open>it\<close>, \<open>val\<close> and the counter
  \<open>self.size\<close> are passed explicitly, the counter being returned updated.
\<close>

fun ins :: "interval \<Rightarrow> 'v \<Rightarrow> 'v tree \<Rightarrow> int \<Rightarrow> error + ('v node \<times> int)" where
  "ins it val None sz = Inr (IntervalMapNode it val, sz + 1)"
| "ins it val (Some (Node i v m h l r)) sz =
     (let c = compareTo it i in
      if c < 0 then
        (case ins it val l sz of
           Inl e \<Rightarrow> Inl e
         | Inr (l', sz') \<Rightarrow>
             (case rebalance (update (Node i v m h (Some l') r)) of
                Inl e \<Rightarrow> Inl e
              | Inr n' \<Rightarrow> Inr (n', sz')))
      else if c > 0 then
        (case ins it val r sz of
           Inl e \<Rightarrow> Inl e
         | Inr (r', sz') \<Rightarrow>
             (case rebalance (update (Node i v m h l (Some r'))) of
                Inl e \<Rightarrow> Inl e
              | Inr n' \<Rightarrow> Inr (n', sz')))
      else Inr (Node i val m h l r, sz))"

definition set_iv :: "argument \<Rightarrow> 'v \<Rightarrow> 'v IntervalMap \<Rightarrow> error + 'v IntervalMap" where
  "set_iv arg val self =
     (case arg of
        NotAnInterval \<Rightarrow> Inl InvalidArgument
      | AnInterval it \<Rightarrow>
          (case ins it val (m_root self) (m_size self) of
             Inl e \<Rightarrow> Inl e
           | Inr (n, sz) \<Rightarrow> Inr (self\<lparr>m_root := Some n, m_size := sz\<rparr>)))"

text \<open>The \<open>while (n)\<close> loop of \<open>get\<close>; \<open>null\<close> is \<open>None\<close>.\<close>

fun get_loop :: "int \<Rightarrow> int \<Rightarrow> 'v tree \<Rightarrow> 'v option" where
  "get_loop qa qb None = None"
| "get_loop qa qb (Some (Node i v m h l r)) =
     (if qa < iv_a i then get_loop qa qb l
      else if qa > iv_a i then get_loop qa qb r
      else if qb = iv_b i then Some v
      else if qb < iv_b i then get_loop qa qb l else get_loop qa qb r)"

definition get :: "argument \<Rightarrow> 'v IntervalMap \<Rightarrow> error + 'v option" where
  "get arg self =
     (case arg of
        NotAnInterval \<Rightarrow> Inl InvalidArgument
      | AnInterval it \<Rightarrow> Inr (get_loop (iv_a it) (iv_b it) (m_root self)))"

fun minNode :: "'v node \<Rightarrow> 'v node" where
  "minNode (Node i v m h l r) =
     (case l of None \<Rightarrow> Node i v m h l r | Some lc \<Rightarrow> minNode lc)"

text \<open>
  \<open>delMin(n2, s)\<close> compares node identities (\<open>n2 === s\<close>). It walks down the left spine
  of the subtree whose leftmost node is \<open>s\<close>; every node met before \<open>s\<close> contains \<open>s\<close>
  as a proper part, so there identity and equality of node values agree.
\<close>

fun delMin :: "'v tree \<Rightarrow> 'v node \<Rightarrow> error + 'v tree" where
  "delMin None s = Inr None"
| "delMin (Some (Node i v m h l r)) s =
     (if Node i v m h l r = s then Inr r
      else
        (case delMin l s of
           Inl e \<Rightarrow> Inl e
         | Inr l' \<Rightarrow>
             (case rebalance (update (Node i v m h l' r)) of
                Inl e \<Rightarrow> Inl e
              | Inr n' \<Rightarrow> Inr (Some n'))))"

text \<open>
  \<open>del\<close> is the closure inside \<open>delete\<close>; the captured flag \<open>removed\<close> is passed and
  returned.
\<close>

fun del :: "interval \<Rightarrow> 'v tree \<Rightarrow> bool \<Rightarrow> error + ('v tree \<times> bool)" where
  "del it None removed = Inr (None, removed)"
| "del it (Some (Node i v m h l r)) removed =
     (let c = compareTo it i in
      if c < 0 then
        (case del it l removed of
           Inl e \<Rightarrow> Inl e
         | Inr (l', removed') \<Rightarrow>
             (case rebalance (update (Node i v m h l' r)) of
                Inl e \<Rightarrow> Inl e
              | Inr n' \<Rightarrow> Inr (Some n', removed')))
      else if c > 0 then
        (case del it r removed of
           Inl e \<Rightarrow> Inl e
         | Inr (r', removed') \<Rightarrow>
             (case rebalance (update (Node i v m h l r')) of
                Inl e \<Rightarrow> Inl e
              | Inr n' \<Rightarrow> Inr (Some n', removed')))
      else if l = None \<or> r = None then
        (let tmp = (if l \<noteq> None then l else r) in
         case tmp of
           None \<Rightarrow> Inr (None, True)
         | Some n \<Rightarrow>
             (case rebalance (update n) of
                Inl e \<Rightarrow> Inl e
              | Inr n' \<Rightarrow> Inr (Some n', True)))
      else
        (case r of
           None \<Rightarrow> Inl TypeError
         | Some rc \<Rightarrow>
             (let s = minNode rc in
              case delMin r s of
                Inl e \<Rightarrow> Inl e
              | Inr r' \<Rightarrow>
                  (case rebalance (update (Node (node_i s) (node_v s) m h l r')) of
                     Inl e \<Rightarrow> Inl e
                   | Inr n' \<Rightarrow> Inr (Some n', True)))))"

definition delete :: "argument \<Rightarrow> 'v IntervalMap \<Rightarrow> error + (bool \<times> 'v IntervalMap)" where
  "delete arg self =
     (case arg of
        NotAnInterval \<Rightarrow> Inl InvalidArgument
      | AnInterval it \<Rightarrow>
          (case del it (m_root self) False of
             Inl e \<Rightarrow> Inl e
           | Inr (t, removed) \<Rightarrow>
               Inr (removed,
                    self\<lparr>m_root := t,
                         m_size := (if removed then m_size self - 1 else m_size self)\<rparr>)))"

section \<open>Query engine\<close>

fun hasOverlap_loop :: "int \<Rightarrow> int \<Rightarrow> 'v tree \<Rightarrow> bool" where
  "hasOverlap_loop qa qb None = False"
| "hasOverlap_loop qa qb (Some (Node i v m h l r)) =
     (if iv_a i \<le> qb \<and> qa \<le> iv_b i then True
      else
        (case l of
           Some lc \<Rightarrow> if node_m lc \<ge> qa then hasOverlap_loop qa qb l
                      else hasOverlap_loop qa qb r
         | None \<Rightarrow> hasOverlap_loop qa qb r))"

definition hasOverlap :: "argument \<Rightarrow> 'v IntervalMap \<Rightarrow> error + bool" where
  "hasOverlap arg self =
     (case arg of
        NotAnInterval \<Rightarrow> Inl InvalidArgument
      | AnInterval q \<Rightarrow> Inr (hasOverlap_loop (iv_a q) (iv_b q) (m_root self)))"

text \<open>
  An entry \<open>{interval, value}\<close> of a result array is a pair. \<open>dfs\<close> is the closure of
  \<open>getOverlapping\<close>; the array \<open>out\<close> it pushes to is passed and returned.
\<close>

type_synonym 'v entry = "interval \<times> 'v"

fun dfs :: "int \<Rightarrow> int \<Rightarrow> 'v tree \<Rightarrow> 'v entry list \<Rightarrow> 'v entry list" where
  "dfs qa qb None out = out"
| "dfs qa qb (Some (Node i v m h l r)) out =
     (let out1 = (case l of
                    Some lc \<Rightarrow> if node_m lc \<ge> qa then dfs qa qb l out else out
                  | None \<Rightarrow> out);
          out2 = (if iv_a i \<le> qb \<and> qa \<le> iv_b i then out1 @ [(i, v)] else out1)
      in if r \<noteq> None \<and> iv_a i \<le> qb then dfs qa qb r out2 else out2)"

definition getOverlapping :: "argument \<Rightarrow> 'v IntervalMap \<Rightarrow> error + 'v entry list" where
  "getOverlapping arg self =
     (case arg of
        NotAnInterval \<Rightarrow> Inl InvalidArgument
      | AnInterval q \<Rightarrow> Inr (dfs (iv_a q) (iv_b q) (m_root self) []))"

text \<open>\<open>getAt\<close>: the pruned traversal for \<open>getAll\<close>, the single descent otherwise.\<close>

fun dfs_at :: "int \<Rightarrow> 'v tree \<Rightarrow> 'v entry list \<Rightarrow> 'v entry list" where
  "dfs_at x None out = out"
| "dfs_at x (Some (Node i v m h l r)) out =
     (let out1 = (case l of
                    Some lc \<Rightarrow> if node_m lc \<ge> x then dfs_at x l out else out
                  | None \<Rightarrow> out);
          out2 = (if iv_a i \<le> x \<and> x \<le> iv_b i then out1 @ [(i, v)] else out1)
      in if r \<noteq> None \<and> iv_a i \<le> x then dfs_at x r out2 else out2)"

fun getAt_loop :: "int \<Rightarrow> 'v tree \<Rightarrow> 'v option" where
  "getAt_loop x None = None"
| "getAt_loop x (Some (Node i v m h l r)) =
     (if x < iv_a i then getAt_loop x l
      else if x > iv_b i then getAt_loop x r
      else Some v)"

datatype 'v getAt_result = All "'v entry list" | One "'v option"

definition getAt :: "int \<Rightarrow> bool \<Rightarrow> 'v IntervalMap \<Rightarrow> 'v getAt_result" where
  "getAt x getAll self =
     (if getAll then All (dfs_at x (m_root self) []) else One (getAt_loop x (m_root self)))"

section \<open>Maintenance\<close>

definition empty_map :: "'v IntervalMap" where
  "empty_map = \<lparr>m_root = None, m_size = 0\<rparr>"

definition getSize :: "'v IntervalMap \<Rightarrow> int" where
  "getSize self = m_size self"

definition isEmpty :: "'v IntervalMap \<Rightarrow> bool" where
  "isEmpty self = (m_size self = 0)"

definition clear :: "'v IntervalMap \<Rightarrow> 'v IntervalMap" where
  "clear self = self\<lparr>m_root := None, m_size := 0\<rparr>"

fun cpy :: "'v tree \<Rightarrow> 'v tree" where
  "cpy None = None"
| "cpy (Some (Node i v m h l r)) =
     (case IntervalMapNode (Interval (iv_a i) (iv_b i)) v of
        Node ni nv nm nh nl nr \<Rightarrow> Some (Node ni nv m h (cpy l) (cpy r)))"

definition clone :: "'v IntervalMap \<Rightarrow> 'v IntervalMap" where
  "clone self = \<lparr>m_root = cpy (m_root self), m_size = m_size self\<rparr>"

section \<open>Bulk builder\<close>

text \<open>The comparator handed to \<open>arr.sort\<close>; its sign is what the sort reads.\<close>

definition cmp_entries :: "bool \<Rightarrow> ('v::linorder) entry \<Rightarrow> 'v entry \<Rightarrow> int" where
  "cmp_entries mergeSame x y =
     (let ix = fst x; iy = fst y in
      if iv_a ix \<noteq> iv_a iy then iv_a ix - iv_a iy
      else if iv_b ix \<noteq> iv_b iy then iv_b ix - iv_b iy
      else if mergeSame then (if snd x < snd y then - 1 else if snd x > snd y then 1 else 0)
      else 0)"

text \<open>
  Modelled from the spec: \<open>Array.prototype.sort\<close> is a built-in of the language, not code
  of the repository. With a comparator it sorts stably: elements that compare equal keep
  their order. Insertion from the right end does exactly that.
\<close>

fun sort_insert :: "('x \<Rightarrow> 'x \<Rightarrow> int) \<Rightarrow> 'x \<Rightarrow> 'x list \<Rightarrow> 'x list" where
  "sort_insert cmp x [] = [x]"
| "sort_insert cmp x (y # ys) =
     (if cmp x y \<le> 0 then x # y # ys else y # sort_insert cmp x ys)"

definition array_sort :: "('x \<Rightarrow> 'x \<Rightarrow> int) \<Rightarrow> 'x list \<Rightarrow> 'x list" where
  "array_sort cmp xs = foldr (sort_insert cmp) xs []"

text \<open>
  The coalescing loop \<open>for (i = 0; i < arr.length; i++)\<close>: the first argument is the
  part of \<open>arr\<close> not yet visited, the second the array \<open>merged\<close>. Extending the end of
  the last retained interval in place replaces the last element of \<open>merged\<close>.
\<close>

fun sweep :: "'v entry list \<Rightarrow> 'v entry list \<Rightarrow> 'v entry list" where
  "sweep [] merged = merged"
| "sweep ((iv, val) # rest) merged =
     (if length merged = 0 then sweep rest (merged @ [(clone_iv iv, val)])
      else
        (let lst = last merged; li = fst lst in
         if snd lst = val \<and> iv_a iv \<le> iv_b li then
           (if iv_b iv > iv_b li
            then sweep rest (butlast merged @ [(Interval (iv_a li) (iv_b iv), snd lst)])
            else sweep rest merged)
         else sweep rest (merged @ [(clone_iv iv, val)])))"

text \<open>
  \<open>build(lo, hi)\<close> over the array \<open>arr\<close>. Indices stay below \<open>2^30\<close> for every array an
  engine can hold, where \<open>(lo + hi) >> 1\<close> is the floor of the half. Reading \<open>arr[mid]\<close>
  outside the array gives \<open>undefined\<close>, whose property access raises.
\<close>

function build :: "'v entry list \<Rightarrow> int \<Rightarrow> int \<Rightarrow> error + 'v tree" where
  "build arr lo hi =
     (if lo > hi then Inr None
      else
        (let mid = (lo + hi) div 2 in
         if mid < 0 \<or> mid \<ge> int (length arr) then Inl TypeError
         else
           (let pair = arr ! nat mid in
            case IntervalMapNode (fst pair) (snd pair) of
              Node ni nv nm nh nl nr \<Rightarrow>
                (case build arr lo (mid - 1) of
                   Inl e \<Rightarrow> Inl e
                 | Inr l \<Rightarrow>
                     (case build arr (mid + 1) hi of
                        Inl e \<Rightarrow> Inl e
                      | Inr r \<Rightarrow>
                          (let lh = (case l of Some lc \<Rightarrow> node_h lc | None \<Rightarrow> 0);
                               rh = (case r of Some rc \<Rightarrow> node_h rc | None \<Rightarrow> 0);
                               h' = (if lh > rh then lh else rh) + 1;
                               m0 = iv_b ni;
                               m1 = (case l of
                                       Some lc \<Rightarrow> if node_m lc > m0 then node_m lc else m0
                                     | None \<Rightarrow> m0);
                               m2 = (case r of
                                       Some rc \<Rightarrow> if node_m rc > m1 then node_m rc else m1
                                     | None \<Rightarrow> m1)
                           in Inr (Some (Node ni nv m2 h' l r))))))))"
  by pat_completeness auto
termination
  by (relation "measure (\<lambda>(arr, lo, hi). nat (hi - lo + 1))") auto

declare build.simps [simp del]

definition fromArray :: "('v::linorder) entry list option \<Rightarrow> bool \<Rightarrow> error + 'v IntervalMap" where
  "fromArray pairs mergeSame =
     (case pairs of
        None \<Rightarrow> Inr empty_map
      | Some ps \<Rightarrow>
          if length ps = 0 then Inr empty_map
          else
            (let arr = array_sort (cmp_entries mergeSame) ps;
                 arr' = (if mergeSame then sweep arr [] else arr)
             in case build arr' 0 (int (length arr') - 1) of
                  Inl e \<Rightarrow> Inl e
                | Inr t \<Rightarrow> Inr \<lparr>m_root = t, m_size = int (length arr')\<rparr>))"

section \<open>Invariants of the data model\<close>

text \<open>The entries of a tree from left to right, and its intervals.\<close>

fun inorder :: "'v tree \<Rightarrow> 'v entry list" where
  "inorder None = []"
| "inorder (Some (Node i v m h l r)) = inorder l @ (i, v) # inorder r"

definition keys :: "'v tree \<Rightarrow> interval list" where
  "keys t = map fst (inorder t)"

fun nodes :: "'v tree \<Rightarrow> nat" where
  "nodes None = 0"
| "nodes (Some (Node i v m h l r)) = nodes l + 1 + nodes r"

text \<open>Invariant 1: left descendants compare less, right descendants greater.\<close>

fun bst :: "'v tree \<Rightarrow> bool" where
  "bst None = True"
| "bst (Some (Node i v m h l r)) =
     ((\<forall>k \<in> set (keys l). compareTo k i < 0) \<and> (\<forall>k \<in> set (keys r). compareTo k i > 0)
      \<and> bst l \<and> bst r)"

text \<open>The height and the largest right endpoint of a subtree, recomputed from the tree alone.\<close>

fun ht :: "'v tree \<Rightarrow> nat" where
  "ht None = 0"
| "ht (Some (Node i v m h l r)) = max (ht l) (ht r) + 1"

fun smax :: "'v node \<Rightarrow> int" where
  "smax (Node i v m h l r) =
     max (iv_b i)
       (max (case l of None \<Rightarrow> iv_b i | Some lc \<Rightarrow> smax lc)
            (case r of None \<Rightarrow> iv_b i | Some rc \<Rightarrow> smax rc))"

text \<open>Invariant 2: the heights of the two children differ by at most one, everywhere.\<close>

fun balanced :: "'v tree \<Rightarrow> bool" where
  "balanced None = True"
| "balanced (Some (Node i v m h l r)) =
     (\<bar>int (ht l) - int (ht r)\<bar> \<le> 1 \<and> balanced l \<and> balanced r)"

text \<open>Invariant 3: both caches of every node hold the recomputed values.\<close>

fun hcache :: "'v tree \<Rightarrow> bool" where
  "hcache None = True"
| "hcache (Some (Node i v m h l r)) =
     (h = ht (Some (Node i v m h l r)) \<and> hcache l \<and> hcache r)"

fun mcache :: "'v tree \<Rightarrow> bool" where
  "mcache None = True"
| "mcache (Some (Node i v m h l r)) =
     (m = smax (Node i v m h l r) \<and> mcache l \<and> mcache r)"

definition caches :: "'v tree \<Rightarrow> bool" where
  "caches t = (hcache t \<and> mcache t)"

text \<open>All four invariants; the fourth is that \<open>size\<close> counts the nodes.\<close>

definition invar :: "'v IntervalMap \<Rightarrow> bool" where
  "invar self =
     (bst (m_root self) \<and> balanced (m_root self) \<and> caches (m_root self)
      \<and> m_size self = int (nodes (m_root self)))"

section \<open>Auxiliary notions for the statements\<close>

text \<open>The pair \<open>(a, b)\<close> of an interval, ordered lexicographically.\<close>

definition key :: "interval \<Rightarrow> int \<times> int" where
  "key x = (iv_a x, iv_b x)"

definition entry_key :: "'v entry \<Rightarrow> int \<times> int" where
  "entry_key e = key (fst e)"

text \<open>The closed-interval overlap test of an entry against the query \<open>[qa, qb]\<close>.\<close>

definition overlaps :: "int \<Rightarrow> int \<Rightarrow> 'v entry \<Rightarrow> bool" where
  "overlaps qa qb e = (iv_a (fst e) \<le> qb \<and> qa \<le> iv_b (fst e))"

text \<open>
  The map of the test suite's deletion scenario, after inserting \<open>[10,20]\<close>, \<open>[5,8]\<close>,
  \<open>[2,3]\<close>, \<open>[12,18]\<close>, \<open>[25,30]\<close> with the values \<open>1\<close> to \<open>5\<close>.
\<close>

definition example_map :: "nat IntervalMap" where
  "example_map =
     \<lparr>m_root = Some (Node (Interval 5 8) 2 30 3
        (Some (Node (Interval 2 3) 3 3 1 None None))
        (Some (Node (Interval 12 18) 4 30 2
           (Some (Node (Interval 10 20) 1 20 1 None None))
           (Some (Node (Interval 25 30) 5 30 1 None None))))),
      m_size = 5\<rparr>"

section \<open>The coalescing sweep in the specification's words\<close>

text \<open>
  The sort key of an entry when \<open>mergeSame\<close> is set: \<open>(a, b)\<close>, then the value.
\<close>

definition sort_key3 :: "'v entry \<Rightarrow> int \<times> int \<times> 'v" where
  "sort_key3 e = (iv_a (fst e), iv_b (fst e), snd e)"

text \<open>
  Specification of the sweep, second definition, from the specification's sentence and not
  from the code: each entry is merged into the immediately preceding retained entry when
  the values are equal and its start is at most the retained end, the retained end
  becoming the larger of the two ends; otherwise the entry starts a new retained run.
  \<open>spec_merge cur es\<close> has \<open>cur\<close> as the retained entry that may still grow.
\<close>

fun spec_merge :: "'v entry \<Rightarrow> 'v entry list \<Rightarrow> 'v entry list" where
  "spec_merge cur [] = [cur]"
| "spec_merge cur (e # es) =
     (if snd e = snd cur \<and> iv_a (fst e) \<le> iv_b (fst cur)
      then spec_merge (Interval (iv_a (fst cur)) (max (iv_b (fst cur)) (iv_b (fst e))), snd cur) es
      else cur # spec_merge e es)"

fun spec_coalesce :: "'v entry list \<Rightarrow> 'v entry list" where
  "spec_coalesce [] = []"
| "spec_coalesce (e # es) = spec_merge e es"

text \<open>
  A run of touching or overlapping intervals of one value: every entry after the first
  has the value \<open>v\<close> and starts no later than the largest end seen so far.
\<close>

fun chain :: "'v \<Rightarrow> int \<Rightarrow> 'v entry list \<Rightarrow> bool" where
  "chain v bmax [] = True"
| "chain v bmax (e # es) =
     (snd e = v \<and> iv_a (fst e) \<le> bmax \<and> chain v (max bmax (iv_b (fst e))) es)"

definition touching_run :: "'v entry list \<Rightarrow> bool" where
  "touching_run run =
     (run \<noteq> [] \<and> sorted (map (iv_a \<circ> fst) run)
      \<and> chain (snd (hd run)) (iv_b (fst (hd run))) (tl run))"

text \<open>The one entry a run becomes: from its least start to its greatest end.\<close>

definition span_of :: "'v entry list \<Rightarrow> 'v entry" where
  "span_of run =
     (Interval (Min (set (map (iv_a \<circ> fst) run))) (Max (set (map (iv_b \<circ> fst) run))),
      snd (hd run))"

text \<open>
  Consecutive runs are separated when the first entry of a run does not merge into the
  span of the run just before it.
\<close>

fun separated :: "'v entry list list \<Rightarrow> bool" where
  "separated (r1 # r2 # rs) =
     (\<not> (snd (hd r2) = snd (hd r1) \<and> iv_a (fst (hd r2)) \<le> Max (set (map (iv_b \<circ> fst) r1)))
      \<and> separated (r2 # rs))"
| "separated rs = True"

text \<open>The largest end among \<open>b0\<close> and the entries of a list, by a left-to-right pass.\<close>

fun ends_max :: "int \<Rightarrow> 'v entry list \<Rightarrow> int" where
  "ends_max b0 [] = b0"
| "ends_max b0 (e # es) = ends_max (max b0 (iv_b (fst e))) es"

text \<open>
  The array \<open>fromArray\<close> builds the tree from, in the specification's words: the pairs
  sorted by \<open>(a, b)\<close>, with ties broken by value and then coalesced when \<open>mergeSame\<close> is
  set.
\<close>

definition retained :: "('v::linorder) entry list \<Rightarrow> bool \<Rightarrow> 'v entry list" where
  "retained ps mergeSame =
     (if mergeSame then spec_coalesce (sort_key sort_key3 ps) else sort_key entry_key ps)"

text \<open>All nodes of a tree.\<close>

fun subnodes :: "'v tree \<Rightarrow> 'v node list" where
  "subnodes None = []"
| "subnodes (Some (Node i v m h l r)) = subnodes l @ Node i v m h l r # subnodes r"

text \<open>
  What \<open>update\<close> makes of a node with the given interval, value and children; the stale
  caches of the node play no part.
\<close>

definition fresh :: "interval \<Rightarrow> 'v \<Rightarrow> 'v tree \<Rightarrow> 'v tree \<Rightarrow> 'v node" where
  "fresh i v l r = update (Node i v (iv_b i) 1 l r)"

text \<open>
  The tree with the value overwritten at the first node with interval \<open>k\<close> that the
  descent by \<open>compareTo\<close> meets, and nothing else touched: shape, intervals and caches
  stay. When no two nodes have the same interval this is the only node with \<open>k\<close>.
\<close>

fun put_first :: "interval \<Rightarrow> 'v \<Rightarrow> 'v tree \<Rightarrow> 'v tree" where
  "put_first k val None = None"
| "put_first k val (Some (Node i v m h l r)) =
     (if compareTo k i < 0 then Some (Node i v m h (put_first k val l) r)
      else if compareTo k i > 0 then Some (Node i v m h l (put_first k val r))
      else Some (Node i val m h l r))"

text \<open>
  The order invariant in its non-strict form: left descendants compare less or equal,
  right descendants greater or equal. With it, the weaker set of invariants.
\<close>

fun wbst :: "'v tree \<Rightarrow> bool" where
  "wbst None = True"
| "wbst (Some (Node i v m h l r)) =
     ((\<forall>k \<in> set (keys l). compareTo k i \<le> 0) \<and> (\<forall>k \<in> set (keys r). compareTo k i \<ge> 0)
      \<and> wbst l \<and> wbst r)"

definition winvar :: "'v IntervalMap \<Rightarrow> bool" where
  "winvar self =
     (wbst (m_root self) \<and> balanced (m_root self) \<and> caches (m_root self)
      \<and> m_size self = int (nodes (m_root self)))"

text \<open>
  The maps that the public operations can produce: the empty map of the constructor, the
  results of \<open>set\<close>, \<open>delete\<close>, \<open>clear\<close> and \<open>clone\<close> on such a map, and the results of
  \<open>fromArray\<close>.
\<close>

inductive reachable :: "('v::linorder) IntervalMap \<Rightarrow> bool" where
  r_new: "reachable empty_map"
| r_set: "reachable self \<Longrightarrow> set_iv (AnInterval it) val self = Inr self' \<Longrightarrow> reachable self'"
| r_delete: "reachable self \<Longrightarrow> delete (AnInterval it) self = Inr (removed, self') \<Longrightarrow> reachable self'"
| r_clear: "reachable self \<Longrightarrow> reachable (clear self)"
| r_clone: "reachable self \<Longrightarrow> reachable (clone self)"
| r_fromArray: "fromArray pairs mergeSame = Inr self \<Longrightarrow> reachable self"

section \<open>The lexicographic order and the in-order sequence\<close>

lemma compareTo_neg: "compareTo x y < 0 \<longleftrightarrow> key x < key y"
  by (simp add: compareTo_def key_def)

lemma compareTo_pos: "compareTo x y > 0 \<longleftrightarrow> key y < key x"
  by (simp add: compareTo_def key_def) 

lemma key_inj: "key x = key y \<longleftrightarrow> x = y"
  by (cases x; cases y) (simp add: key_def)

lemma bst_sorted: "bst t \<longleftrightarrow> sorted_wrt (<) (map key (keys t))"
proof (induction t rule: inorder.induct)
  case 1
  show ?case by (simp add: keys_def)
next
  case (2 i v m h l r)
  have "bst (Some (Node i v m h l r)) \<longleftrightarrow>
      (\<forall>k\<in>set (keys l). key k < key i) \<and> (\<forall>k\<in>set (keys r). key i < key k)
      \<and> sorted_wrt (<) (map key (keys l)) \<and> sorted_wrt (<) (map key (keys r))"
    using 2 by (simp add: compareTo_neg compareTo_pos)
  also have "\<dots> \<longleftrightarrow> sorted_wrt (<) (map key (keys (Some (Node i v m h l r))))"
    by (auto simp: keys_def sorted_wrt_append intro: less_trans)
  finally show ?case .
qed

lemma mcache_m: "mcache (Some n) \<Longrightarrow> node_m n = smax n"
  by (cases n) simp

lemma smax_upper: "e \<in> set (inorder (Some n)) \<Longrightarrow> iv_b (fst e) \<le> smax n"
proof (induction "Some n" arbitrary: n rule: inorder.induct)
  case (2 i v m h l r)
  then show ?case
    by (cases l; cases r) (auto simp: max_def split: if_splits)
qed

lemma smax_attained: "\<exists>e \<in> set (inorder (Some n)). iv_b (fst e) = smax n"
proof (induction "Some n" arbitrary: n rule: inorder.induct)
  case (2 i v m h l r)
  then show ?case
    by (cases l; cases r) (auto simp: max_def split: if_splits)
qed

lemma left_pruned:
  assumes "mcache (Some lc)" "node_m lc < qa"
  shows "filter (overlaps qa qb) (inorder (Some lc)) = []"
  using smax_upper[of _ lc] mcache_m[OF assms(1)] assms(2)
  by (fastforce simp: overlaps_def filter_empty_conv)

lemma right_pruned:
  assumes "\<forall>k\<in>set (keys r). compareTo k i > 0" "\<not> iv_a i \<le> qb"
  shows "filter (overlaps qa qb) (inorder r) = []"
  using assms by (fastforce simp: overlaps_def filter_empty_conv keys_def compareTo_pos key_def)

lemma dfs_filter:
  "bst t \<Longrightarrow> mcache t \<Longrightarrow> dfs qa qb t out = out @ filter (overlaps qa qb) (inorder t)"
proof (induction t arbitrary: out rule: inorder.induct)
  case 1
  show ?case by simp
next
  case (2 i v m h l r)
  have L: "(case l of Some lc \<Rightarrow> if node_m lc \<ge> qa then dfs qa qb l out else out | None \<Rightarrow> out)
           = out @ filter (overlaps qa qb) (inorder l)"
    using 2 left_pruned[of _ qa qb] by (cases l) (auto simp: not_le)
  have R: "(if r \<noteq> None \<and> iv_a i \<le> qb then dfs qa qb r out' else out')
           = out' @ filter (overlaps qa qb) (inorder r)" for out'
    using 2 right_pruned[of r i qb qa] by (cases r) auto
  have H: "overlaps qa qb (i, v) = (iv_a i \<le> qb \<and> qa \<le> iv_b i)"
    by (simp add: overlaps_def)
  show ?case
    unfolding dfs.simps Let_def L R by (simp add: H)
qed

lemma hasOverlap_loop_iff:
  "bst t \<Longrightarrow> mcache t \<Longrightarrow>
   hasOverlap_loop qa qb t \<longleftrightarrow> (\<exists>e\<in>set (inorder t). overlaps qa qb e)"
proof (induction t rule: inorder.induct)
  case 1
  show ?case by simp
next
  case (2 i v m h l r)
  let ?P = "overlaps qa qb"
  show ?case
  proof (cases "?P (i, v)")
    case True
    then show ?thesis by (auto simp: overlaps_def)
  next
    case here: False
    have noL: "\<not> (\<exists>e\<in>set (inorder l). ?P e)" if "l = None \<or> (\<exists>lc. l = Some lc \<and> node_m lc < qa)"
      using that 2 left_pruned[of _ qa qb] by (auto simp: filter_empty_conv)
    have noR: "\<not> (\<exists>e\<in>set (inorder r). ?P e)"
      if "l = Some lc" "node_m lc \<ge> qa" "\<not> (\<exists>e\<in>set (inorder l). ?P e)" for lc
    proof -
      have "mcache (Some lc)" using 2 that by simp
      then have "node_m lc = smax lc" by (rule mcache_m)
      then have "\<exists>e0 \<in> set (inorder l). iv_b (fst e0) = node_m lc"
        using smax_attained[of lc] that(1) by simp
      then obtain e0 where e0: "e0 \<in> set (inorder l)" "iv_b (fst e0) = node_m lc"
        by blast
      then have "\<not> ?P e0" using that by blast
      then have "qb < iv_a (fst e0)" using e0 that by (simp add: overlaps_def)
      moreover have "key (fst e0) < key i"
        using 2 e0 by (auto simp: keys_def compareTo_neg)
      ultimately have "qb < iv_a i" by (auto simp: key_def)
      then show ?thesis
        using right_pruned[of r i qb qa] 2 by (auto simp: filter_empty_conv)
    qed
    show ?thesis
    proof (cases l)
      case None
      then show ?thesis using here 2 noL by (auto simp: overlaps_def)
    next
      case (Some lc)
      show ?thesis
      proof (cases "node_m lc \<ge> qa")
        case True
        then show ?thesis using here 2 Some noR[OF Some True] by (auto simp: overlaps_def)
      next
        case False
        then show ?thesis using here 2 Some noL by (auto simp: overlaps_def)
      qed
    qed
  qed
qed

section \<open>The balance engine never dereferences \<open>null\<close>\<close>

lemma rotL_total: "node_r x \<noteq> None \<Longrightarrow> \<exists>y. rotL x = Inr y"
  by (cases x) (auto split: option.splits node.splits)

lemma rotR_total: "node_l x \<noteq> None \<Longrightarrow> \<exists>y. rotR x = Inr y"
  by (cases x) (auto split: option.splits node.splits)

lemma height_pos: "k < height t \<Longrightarrow> \<exists>y. t = Some y"
  by (cases t) auto

lemma rebalance_total: "\<exists>n'. rebalance n = Inr n'"
proof (cases n)
  case (Node i v m h l r)
  let ?b = "bf n"
  consider (L) "?b > 1" | (R) "\<not> ?b > 1" "?b < - 1" | (M) "\<not> ?b > 1" "\<not> ?b < - 1" by blast
  then show ?thesis
  proof cases
    case L
    then obtain lc where lc: "l = Some lc" using Node by (cases l) auto
    show ?thesis
    proof (cases "bf lc < 0")
      case True
      then have "node_r lc \<noteq> None" by (cases lc) (auto dest: height_pos)
      then obtain l' where "rotL lc = Inr l'" using rotL_total by blast
      then show ?thesis using Node L lc True rotR_total[of "Node i v m h (Some l') r"] by simp
    next
      case False
      then show ?thesis using Node L lc rotR_total[of "Node i v m h l r"] by simp
    qed
  next
    case R
    then obtain rc where rc: "r = Some rc" using Node by (cases r) auto
    show ?thesis
    proof (cases "bf rc > 0")
      case True
      then have "node_l rc \<noteq> None" by (cases rc) (auto dest: height_pos)
      then obtain r' where "rotR rc = Inr r'" using rotR_total by blast
      then show ?thesis using Node R rc True rotL_total[of "Node i v m h l (Some r')"] by simp
    next
      case False
      then show ?thesis using Node R rc rotL_total[of "Node i v m h l r"] by simp
    qed
  next
    case M
    then show ?thesis using Node by simp
  qed
qed

declare rebalance.simps [simp del] update.simps [simp del]

lemma rebalance_cases:
  obtains n' where "rebalance n = Inr n'"
  using rebalance_total by blast

lemma delMin_total: "\<exists>t'. delMin t s = Inr t'"
proof (induction t rule: inorder.induct)
  case 1
  show ?case by simp
next
  case (2 i v m h l r)
  then obtain l' where l': "delMin l s = Inr l'" by blast
  obtain n' where "rebalance (update (Node i v m h l' r)) = Inr n'" by (rule rebalance_cases)
  then show ?case using l' by simp
qed

lemma del_total:
  "\<exists>t' rm. del it t removed = Inr (t', rm) \<and> (it \<notin> set (keys t) \<longrightarrow> rm = removed)"
proof (induction t rule: inorder.induct)
  case 1
  show ?case by simp
next
  case (2 i v m h l r)
  obtain l' rl where l': "del it l removed = Inr (l', rl)" "it \<notin> set (keys l) \<longrightarrow> rl = removed"
    using 2 by blast
  obtain r' rr where r': "del it r removed = Inr (r', rr)" "it \<notin> set (keys r) \<longrightarrow> rr = removed"
    using 2 by blast
  obtain nl where nl: "rebalance (update (Node i v m h l' r)) = Inr nl" by (rule rebalance_cases)
  obtain nr where nr: "rebalance (update (Node i v m h l r')) = Inr nr" by (rule rebalance_cases)
  consider (lt) "compareTo it i < 0" | (gt) "\<not> compareTo it i < 0" "compareTo it i > 0"
    | (eq) "\<not> compareTo it i < 0" "\<not> compareTo it i > 0" by blast
  then show ?case
  proof cases
    case lt
    then show ?thesis using l' nl by (auto simp: keys_def)
  next
    case gt
    then show ?thesis using r' nr by (auto simp: keys_def)
  next
    case eq
    then have "compareTo it i = 0" by simp
    then have mem: "it \<in> set (keys (Some (Node i v m h l r)))"
      by (simp add: compareTo_def keys_def split: if_splits) (cases it; cases i; simp)
    show ?thesis
    proof (cases "l = None \<or> r = None")
      case True
      show ?thesis
      proof (cases "if l \<noteq> None then l else r")
        case None
        then show ?thesis using eq True mem by (auto split: if_splits)
      next
        case (Some c)
        obtain n' where "rebalance (update c) = Inr n'" by (rule rebalance_cases)
        then show ?thesis using eq True mem Some by (auto split: if_splits)
      qed
    next
      case False
      then obtain rc where rc: "r = Some rc" by auto
      obtain r2 where r2: "delMin r (minNode rc) = Inr r2" using delMin_total by blast
      obtain n' where "rebalance (update (Node (node_i (minNode rc)) (node_v (minNode rc)) m h l r2)) = Inr n'"
        by (rule rebalance_cases)
      then show ?thesis using eq False mem rc r2 by (auto simp: Let_def)
    qed
  qed
qed

section \<open>The bottom-up build\<close>

lemma hcache_height: "hcache t \<Longrightarrow> height t = ht t"
  by (induction t rule: inorder.induct) auto

lemma height_case: "(case t of Some c \<Rightarrow> node_h c | None \<Rightarrow> 0) = height t"
  by (cases t) auto

lemma nodes_inorder: "nodes t = length (inorder t)"
  by (induction t rule: inorder.induct) auto

lemma smax_node:
  "mcache l \<Longrightarrow> mcache r \<Longrightarrow>
   smax (Node i v m h l r) =
     (let m0 = iv_b i;
          m1 = (case l of Some lc \<Rightarrow> if node_m lc > m0 then node_m lc else m0 | None \<Rightarrow> m0)
      in (case r of Some rc \<Rightarrow> if node_m rc > m1 then node_m rc else m1 | None \<Rightarrow> m1))"
  by (cases l; cases r) (auto simp: mcache_m Let_def max_def)

lemma slice_split:
  assumes "lo \<le> mid" "mid < hi1" "hi1 \<le> length arr"
  shows "drop lo (take hi1 arr) = drop lo (take mid arr) @ arr ! mid # drop (Suc mid) (take hi1 arr)"
proof -
  let ?xs = "take hi1 arr"
  have "mid < length ?xs" using assms by simp
  then have "?xs = take mid ?xs @ ?xs ! mid # drop (Suc mid) ?xs"
    by (rule id_take_nth_drop)
  moreover have "take mid ?xs = take mid arr" using assms by (simp add: min_def)
  moreover have "?xs ! mid = arr ! mid" using assms by simp
  ultimately have "?xs = take mid arr @ arr ! mid # drop (Suc mid) ?xs" by simp
  then have "drop lo ?xs = drop lo (take mid arr @ arr ! mid # drop (Suc mid) ?xs)" by simp
  also have "\<dots> = drop lo (take mid arr) @ arr ! mid # drop (Suc mid) ?xs"
    using assms by simp
  finally show ?thesis .
qed

lemma clog_mono: "m \<le> n \<Longrightarrow> \<lceil>log 2 (real m + 1)\<rceil> \<le> \<lceil>log 2 (real n + 1)\<rceil>"
  by (intro ceiling_mono) simp

lemma clog_step: "\<lceil>log 2 (real n + 2)\<rceil> \<le> \<lceil>log 2 (real n + 1)\<rceil> + 1"
proof -
  have "log 2 (real n + 2) \<le> log 2 (2 * (real n + 1))" by simp
  also have "\<dots> = log 2 2 + log 2 (real n + 1)" by (subst log_mult) auto
  also have "\<dots> = 1 + log 2 (real n + 1)" by simp
  finally have "\<lceil>log 2 (real n + 2)\<rceil> \<le> \<lceil>1 + log 2 (real n + 1)\<rceil>" by (rule ceiling_mono)
  moreover have "\<lceil>1 + log 2 (real n + 1)\<rceil> = \<lceil>log 2 (real n + 1)\<rceil> + 1"
    by (metis add.commute ceiling_add_one)
  ultimately show ?thesis by linarith
qed

lemma clog_half: "0 < n \<Longrightarrow> \<lceil>log 2 (real n + 1)\<rceil> = \<lceil>log 2 (real (n div 2) + 1)\<rceil> + 1"
  using ceiling_log2_div2[of "n + 1"] by (simp add: add.commute)

lemma build_ok:
  assumes "0 \<le> lo" "hi < int (length arr)" "lo \<le> hi + 1"
  shows "\<exists>t. build arr lo hi = Inr t
           \<and> inorder t = drop (nat lo) (take (nat (hi + 1)) arr)
           \<and> hcache t \<and> mcache t \<and> balanced t
           \<and> int (ht t) = \<lceil>log 2 (real (nat (hi - lo + 1)) + 1)\<rceil>"
  using assms
proof (induction "nat (hi - lo + 1)" arbitrary: lo hi rule: less_induct)
  case less
  show ?case
  proof (cases "lo > hi")
    case True
    then have "hi + 1 = lo" using less.prems by simp
    then show ?thesis using True less.prems by (simp add: build.simps)
  next
    case False
    define mid where "mid = (lo + hi) div 2"
    have mid: "lo \<le> mid" "mid \<le> hi" using False by (auto simp: mid_def)
    have inr: "\<not> (mid < 0 \<or> mid \<ge> int (length arr))" using mid less.prems by auto
    obtain l where l: "build arr lo (mid - 1) = Inr l"
      "inorder l = drop (nat lo) (take (nat mid) arr)" "hcache l" "mcache l" "balanced l"
      "int (ht l) = \<lceil>log 2 (real (nat (mid - lo)) + 1)\<rceil>"
      using less.hyps[of "mid - 1" lo] mid less.prems by auto
    obtain r where r: "build arr (mid + 1) hi = Inr r"
      "inorder r = drop (nat (mid + 1)) (take (nat (hi + 1)) arr)" "hcache r" "mcache r" "balanced r"
      "int (ht r) = \<lceil>log 2 (real (nat (hi - mid)) + 1)\<rceil>"
      using less.hyps[of hi "mid + 1"] mid less.prems by auto
    define n where "n = nat (hi - lo + 1)"
    have nl: "nat (mid - lo) = (n - 1) div 2" and nr: "nat (hi - mid) = n div 2" and npos: "0 < n"
      using mid by (auto simp: n_def mid_def nat_div_distrib) 
    have hl: "int (ht l) = \<lceil>log 2 (real ((n - 1) div 2) + 1)\<rceil>"
      and hr: "int (ht r) = \<lceil>log 2 (real (n div 2) + 1)\<rceil>"
      using l(6) r(6) nl nr by simp_all
    have le: "int (ht l) \<le> int (ht r)"
      unfolding hl hr by (rule clog_mono) simp
    have "n div 2 \<le> (n - 1) div 2 + 1" by simp
    then have "\<lceil>log 2 (real (n div 2) + 1)\<rceil> \<le> \<lceil>log 2 (real ((n - 1) div 2 + 1) + 1)\<rceil>"
      by (rule clog_mono)
    also have "\<dots> = \<lceil>log 2 (real ((n - 1) div 2) + 2)\<rceil>"
      by (simp add: add.commute)
    also have "\<dots> \<le> \<lceil>log 2 (real ((n - 1) div 2) + 1)\<rceil> + 1"
      by (rule clog_step)
    finally have ge: "int (ht r) \<le> int (ht l) + 1"
      unfolding hl hr .
    define t where "t = Node (fst (arr ! nat mid)) (snd (arr ! nat mid))
        (let m0 = iv_b (fst (arr ! nat mid));
             m1 = (case l of Some lc \<Rightarrow> if node_m lc > m0 then node_m lc else m0 | None \<Rightarrow> m0)
         in (case r of Some rc \<Rightarrow> if node_m rc > m1 then node_m rc else m1 | None \<Rightarrow> m1))
        ((if height l > height r then height l else height r) + 1) l r"
    have b: "build arr lo hi = Inr (Some t)"
      using False inr l(1) r(1)
      by (subst build.simps) (simp add: mid_def[symmetric] IntervalMapNode_def Let_def height_case t_def)
    have io: "inorder (Some t) = drop (nat lo) (take (nat (hi + 1)) arr)"
    proof -
      have "drop (nat lo) (take (nat (hi + 1)) arr)
            = drop (nat lo) (take (nat mid) arr) @ arr ! nat mid # drop (Suc (nat mid)) (take (nat (hi + 1)) arr)"
        by (rule slice_split) (use mid less.prems in auto)
      moreover have "Suc (nat mid) = nat (mid + 1)" using mid less.prems by simp
      ultimately show ?thesis by (simp add: t_def l(2) r(2))
    qed
    have hts: "ht (Some t) = ht r + 1" using le by (simp add: t_def max_def)
    have hc: "hcache (Some t)"
      using l(3) r(3) by (simp add: t_def hcache_height max_def)
    have mc: "mcache (Some t)"
      using l(4) r(4) smax_node[of l r] by (simp add: t_def)
    have bal: "balanced (Some t)"
      using l(5) r(5) le ge by (simp add: t_def)
    have "int (ht (Some t)) = \<lceil>log 2 (real n + 1)\<rceil>"
      using hts hr clog_half[OF npos] by simp
    then show ?thesis using b io hc mc bal by (simp add: n_def)
  qed
qed

section \<open>Sorting and coalescing\<close>

lemma clone_iv_id: "clone_iv x = x"
  by (cases x) (simp add: clone_iv_def)

lemma sort_insert_insort:
  assumes "\<And>x y. cmp x y \<le> 0 \<longleftrightarrow> f x \<le> f y"
  shows "sort_insert cmp x ys = insort_key f x ys"
  by (induction ys) (simp_all add: assms)

lemma array_sort_sort_key:
  assumes "\<And>x y. cmp x y \<le> 0 \<longleftrightarrow> f x \<le> f y"
  shows "array_sort cmp xs = sort_key f xs"
proof -
  have "sort_insert cmp = insort_key f"
    by (intro ext) (rule sort_insert_insort[OF assms])
  then show ?thesis by (simp add: array_sort_def sort_key_def)
qed

lemma cmp_entries_True: "cmp_entries True x y \<le> 0 \<longleftrightarrow> sort_key3 x \<le> sort_key3 y"
  by (auto simp: cmp_entries_def sort_key3_def Let_def)

lemma cmp_entries_False: "cmp_entries False x y \<le> 0 \<longleftrightarrow> entry_key x \<le> entry_key y"
  by (auto simp: cmp_entries_def entry_key_def key_def Let_def)

lemma sweep_spec_merge: "sweep xs (acc @ [cur]) = acc @ spec_merge cur xs"
proof (induction xs arbitrary: acc cur)
  case Nil
  show ?case by simp
next
  case (Cons x xs)
  obtain iv val where x: "x = (iv, val)" by (cases x)
  obtain li lv where cur: "cur = (li, lv)" by (cases cur)
  show ?case
  proof (cases "lv = val \<and> iv_a iv \<le> iv_b li")
    case merge: True
    show ?thesis
    proof (cases "iv_b iv > iv_b li")
      case True
      have "sweep (x # xs) (acc @ [cur]) = sweep xs (acc @ [(Interval (iv_a li) (iv_b iv), lv)])"
        using merge True by (simp add: x cur)
      also have "\<dots> = acc @ spec_merge (Interval (iv_a li) (iv_b iv), lv) xs"
        by (rule Cons.IH)
      also have "\<dots> = acc @ spec_merge cur (x # xs)"
        using merge True by (simp add: x cur max_def)
      finally show ?thesis .
    next
      case False
      have "sweep (x # xs) (acc @ [cur]) = sweep xs (acc @ [cur])"
        using merge False by (simp add: x cur)
      also have "\<dots> = acc @ spec_merge cur xs"
        by (rule Cons.IH)
      also have "\<dots> = acc @ spec_merge cur (x # xs)"
        using merge False by (simp add: x cur max_def)
      finally show ?thesis .
    qed
  next
    case False
    have "sweep (x # xs) (acc @ [cur]) = sweep xs ((acc @ [cur]) @ [x])"
      using False by (auto simp: x cur clone_iv_id)
    also have "\<dots> = (acc @ [cur]) @ spec_merge x xs"
      by (rule Cons.IH)
    also have "\<dots> = acc @ spec_merge cur (x # xs)"
      using False by (auto simp: x cur)
    finally show ?thesis .
  qed
qed

lemma sweep_spec_coalesce: "sweep xs [] = spec_coalesce xs"
proof (cases xs)
  case Nil
  then show ?thesis by simp
next
  case (Cons x ys)
  obtain iv val where x: "x = (iv, val)" by (cases x)
  have "sweep xs [] = sweep ys ([] @ [x])"
    by (simp add: Cons x clone_iv_id)
  also have "\<dots> = [] @ spec_merge x ys"
    by (rule sweep_spec_merge)
  finally show ?thesis
    by (simp add: Cons)
qed

lemma ends_max_Max: "ends_max b0 es = Max (insert b0 (set (map (iv_b \<circ> fst) es)))"
proof (induction es arbitrary: b0)
  case Nil
  show ?case by simp
next
  case (Cons e es)
  have "Max (insert (max b0 (iv_b (fst e))) (set (map (iv_b \<circ> fst) es)))
        = Max (insert b0 (insert (iv_b (fst e)) (set (map (iv_b \<circ> fst) es))))"
    by (cases "set (map (iv_b \<circ> fst) es) = {}") (simp_all add: max.assoc)
  then show ?case by (simp add: Cons.IH)
qed

lemma merge_chain:
  "chain v b0 es \<Longrightarrow>
   spec_merge (Interval a0 b0, v) (es @ rest) = spec_merge (Interval a0 (ends_max b0 es), v) rest"
  by (induction es arbitrary: b0) auto

lemma span_of_run:
  assumes "touching_run run"
  shows "span_of run = (Interval (iv_a (fst (hd run))) (ends_max (iv_b (fst (hd run))) (tl run)), snd (hd run))"
proof -
  obtain e es where run: "run = e # es" using assms by (cases run) (auto simp: touching_run_def)
  have "sorted (map (iv_a \<circ> fst) (e # es))" using assms by (simp add: touching_run_def run)
  then have "Min (set (map (iv_a \<circ> fst) (e # es))) = iv_a (fst e)"
    by (auto intro!: Min_eqI)
  then show ?thesis
    by (simp add: span_of_def run ends_max_Max)
qed

lemma merge_run:
  assumes "touching_run run"
  shows "spec_merge (hd run) (tl run @ rest) = spec_merge (span_of run) rest"
proof -
  obtain e es where run: "run = e # es" using assms by (cases run) (auto simp: touching_run_def)
  obtain iv val where e: "e = (iv, val)" by (cases e)
  have iv: "iv = Interval (iv_a iv) (iv_b iv)" by simp
  have "chain val (iv_b iv) es" using assms by (simp add: touching_run_def run e)
  then have "spec_merge (Interval (iv_a iv) (iv_b iv), val) (es @ rest)
             = spec_merge (Interval (iv_a iv) (ends_max (iv_b iv) es), val) rest"
    by (rule merge_chain)
  then show ?thesis
    using span_of_run[OF assms] by (simp add: run e)
qed

lemma span_of_fields:
  assumes "touching_run run"
  shows "snd (span_of run) = snd (hd run)"
    and "iv_b (fst (span_of run)) = Max (set (map (iv_b \<circ> fst) run))"
  by (simp_all add: span_of_def)

lemma merge_runs:
  assumes "\<forall>run \<in> set (r # runs). touching_run run" "separated (r # runs)"
  shows "spec_merge (hd r) (tl r @ concat runs) = map span_of (r # runs)"
  using assms
proof (induction runs arbitrary: r)
  case Nil
  then show ?case using merge_run[of r "[]"] by simp
next
  case (Cons r2 runs)
  have t: "touching_run r" "touching_run r2" using Cons.prems by simp_all
  then obtain e es where r2: "r2 = e # es" by (cases r2) (auto simp: touching_run_def)
  have nomerge: "\<not> (snd e = snd (span_of r) \<and> iv_a (fst e) \<le> iv_b (fst (span_of r)))"
    using Cons.prems(2) span_of_fields[OF t(1)] by (simp add: r2)
  have "spec_merge (hd r) (tl r @ concat (r2 # runs)) = spec_merge (span_of r) (e # es @ concat runs)"
    using merge_run[OF t(1)] by (simp add: r2)
  also have "\<dots> = span_of r # spec_merge e (es @ concat runs)"
    using nomerge by auto
  also have "spec_merge e (es @ concat runs) = map span_of (r2 # runs)"
    using Cons.IH[of r2] Cons.prems by (simp add: r2)
  finally show ?case by simp
qed

lemma coalesce_runs:
  assumes "\<forall>run \<in> set runs. touching_run run" "separated runs"
  shows "spec_coalesce (concat runs) = map span_of runs"
proof (cases runs)
  case Nil
  then show ?thesis by simp
next
  case (Cons r rs)
  then obtain e es where r: "r = e # es" using assms(1) by (cases r) (auto simp: touching_run_def)
  show ?thesis
    using merge_runs[of r rs] assms by (simp add: Cons r)
qed

section \<open>The builder as a whole\<close>

lemma update_id: "hcache (Some n) \<Longrightarrow> mcache (Some n) \<Longrightarrow> update n = n"
proof (cases n)
  case (Node i v m h l r)
  assume a: "hcache (Some n)" "mcache (Some n)"
  then have "hcache l" "hcache r" "mcache l" "mcache r" using Node by simp_all
  then show ?thesis
    using a Node smax_node[of l r i v m h] hcache_height[of l] hcache_height[of r]
    by (simp add: update.simps Let_def max_def)
qed

lemma rebalance_id: "hcache (Some n) \<Longrightarrow> balanced (Some n) \<Longrightarrow> rebalance n = Inr n"
proof (cases n)
  case (Node i v m h l r)
  assume a: "hcache (Some n)" "balanced (Some n)"
  then have "height l = ht l" "height r = ht r" using Node by (simp_all add: hcache_height)
  then show ?thesis using a Node by (auto simp: rebalance.simps Let_def)
qed

lemma spec_merge_sorted:
  assumes "\<forall>e\<in>set es. entry_key cur \<le> entry_key e" "sorted (map entry_key es)"
  shows "sorted (map entry_key (spec_merge cur es))
       \<and> (\<forall>e'\<in>set (spec_merge cur es). entry_key cur \<le> entry_key e')"
  using assms
proof (induction es arbitrary: cur)
  case Nil
  show ?case by simp
next
  case (Cons e es)
  show ?case
  proof (cases "snd e = snd cur \<and> iv_a (fst e) \<le> iv_b (fst cur)")
    case True
    let ?c = "(Interval (iv_a (fst cur)) (max (iv_b (fst cur)) (iv_b (fst e))), snd cur)"
    have ce: "entry_key cur \<le> entry_key e" using Cons.prems by simp
    then have "entry_key ?c \<le> entry_key e" by (auto simp: entry_key_def key_def max_def)
    moreover have "\<forall>e'\<in>set es. entry_key e \<le> entry_key e'" using Cons.prems by simp
    ultimately have "\<forall>e'\<in>set es. entry_key ?c \<le> entry_key e'" by (meson order_trans)
    moreover have "sorted (map entry_key es)" using Cons.prems by simp
    ultimately have "sorted (map entry_key (spec_merge ?c es))
       \<and> (\<forall>e'\<in>set (spec_merge ?c es). entry_key ?c \<le> entry_key e')"
      by (rule Cons.IH)
    moreover have "entry_key cur \<le> entry_key ?c" by (auto simp: entry_key_def key_def max_def)
    ultimately show ?thesis using True by (auto intro: order_trans)
  next
    case False
    have "\<forall>e'\<in>set es. entry_key e \<le> entry_key e'" "sorted (map entry_key es)"
      using Cons.prems by simp_all
    then have "sorted (map entry_key (spec_merge e es))
       \<and> (\<forall>e'\<in>set (spec_merge e es). entry_key e \<le> entry_key e')"
      by (rule Cons.IH)
    moreover have "entry_key cur \<le> entry_key e" using Cons.prems by simp
    ultimately show ?thesis using False by (auto intro: order_trans)
  qed
qed

lemma spec_coalesce_sorted:
  assumes "sorted (map entry_key xs)"
  shows "sorted (map entry_key (spec_coalesce xs))"
proof (cases xs)
  case Nil
  then show ?thesis by simp
next
  case (Cons x ys)
  then show ?thesis using assms spec_merge_sorted[of ys x] by simp
qed

lemma sorted_key3: "sorted (map sort_key3 xs) \<Longrightarrow> sorted (map entry_key xs)"
  by (induction xs) (auto simp: sort_key3_def entry_key_def key_def)

lemma retained_sorted: "sorted (map entry_key (retained ps ms))"
proof (cases ms)
  case True
  have "sorted (map sort_key3 (sort_key sort_key3 ps))" by (rule sorted_sort_key)
  then show ?thesis using True by (simp add: retained_def sorted_key3 spec_coalesce_sorted)
next
  case False
  have "sorted (map entry_key (sort_key entry_key ps))" by (rule sorted_sort_key)
  then show ?thesis using False by (simp add: retained_def)
qed

lemma fromArray_ok:
  "\<exists>m. fromArray (Some ps) ms = Inr m
     \<and> inorder (m_root m) = retained ps ms
     \<and> hcache (m_root m) \<and> mcache (m_root m) \<and> balanced (m_root m)
     \<and> m_size m = int (length (retained ps ms))
     \<and> int (ht (m_root m)) = \<lceil>log 2 (real (length (retained ps ms)) + 1)\<rceil>"
proof (cases "ps = []")
  case True
  then show ?thesis by (simp add: fromArray_def empty_map_def retained_def)
next
  case False
  let ?arr = "retained ps ms"
  have arr: "(if ms then sweep (array_sort (cmp_entries ms) ps) [] else array_sort (cmp_entries ms) ps) = ?arr"
    using array_sort_sort_key[of "cmp_entries True" sort_key3 ps, OF cmp_entries_True]
      array_sort_sort_key[of "cmp_entries False" entry_key ps, OF cmp_entries_False]
    by (auto simp: retained_def sweep_spec_coalesce)
  obtain t where t: "build ?arr 0 (int (length ?arr) - 1) = Inr t"
    "inorder t = drop (nat 0) (take (nat (int (length ?arr) - 1 + 1)) ?arr)"
    "hcache t" "mcache t" "balanced t"
    "int (ht t) = \<lceil>log 2 (real (nat (int (length ?arr) - 1 - 0 + 1)) + 1)\<rceil>"
    using build_ok[of 0 "int (length ?arr) - 1" ?arr] by auto
  show ?thesis
    using False t by (simp add: fromArray_def Let_def arr)
qed

section \<open>Rotations and rebalancing\<close>

lemma update_fresh: "update (Node i v m h l r) = fresh i v l r"
  by (simp add: fresh_def update.simps)

lemma fresh_sel [simp]:
  "node_i (fresh i v l r) = i" "node_v (fresh i v l r) = v"
  "node_l (fresh i v l r) = l" "node_r (fresh i v l r) = r"
  "node_h (fresh i v l r) = max (height l) (height r) + 1"
  by (simp_all add: fresh_def update.simps Let_def max_def)

lemma inorder_fresh [simp]: "inorder (Some (fresh i v l r)) = inorder l @ (i, v) # inorder r"
  by (simp add: fresh_def update.simps Let_def)

lemma nodes_fresh [simp]: "nodes (Some (fresh i v l r)) = nodes l + 1 + nodes r"
  by (simp add: fresh_def update.simps Let_def)

lemma ht_fresh [simp]: "ht (Some (fresh i v l r)) = max (ht l) (ht r) + 1"
  by (simp add: fresh_def update.simps Let_def)

lemma balanced_fresh [simp]:
  "balanced (Some (fresh i v l r)) \<longleftrightarrow> \<bar>int (ht l) - int (ht r)\<bar> \<le> 1 \<and> balanced l \<and> balanced r"
  by (simp add: fresh_def update.simps Let_def)

lemma hcache_fresh [simp]: "hcache l \<Longrightarrow> hcache r \<Longrightarrow> hcache (Some (fresh i v l r))"
  by (simp add: fresh_def update.simps Let_def hcache_height max_def)

lemma mcache_fresh [simp]: "mcache l \<Longrightarrow> mcache r \<Longrightarrow> mcache (Some (fresh i v l r))"
  using smax_node[of l r i v]
  by (simp add: fresh_def update.simps Let_def del: smax.simps)

lemma caches_fresh [simp]: "caches l \<Longrightarrow> caches r \<Longrightarrow> caches (Some (fresh i v l r))"
  by (simp add: caches_def)

lemma caches_height: "caches t \<Longrightarrow> height t = ht t"
  by (simp add: caches_def hcache_height)

lemma fresh_id:
  assumes "caches (Some n)" "n = Node i v m h l r"
  shows "fresh i v l r = n"
proof -
  have "update n = n" using assms(1) by (simp add: caches_def update_id)
  moreover have "update n = fresh i v l r" unfolding assms(2) by (rule update_fresh)
  ultimately show ?thesis by simp
qed

lemma bf_fresh: "caches l \<Longrightarrow> caches r \<Longrightarrow> bf (fresh i v l r) = int (ht l) - int (ht r)"
  by (simp add: fresh_def update.simps Let_def caches_height)

lemma rotL_fresh:
  "rotL (Node xi xv xm xh xl (Some (Node yi yv ym yh T2 yr)))
     = Inr (fresh yi yv (Some (fresh xi xv xl T2)) yr)"
  by (simp add: update_fresh)

lemma rotR_fresh:
  "rotR (Node yi yv ym yh (Some (Node xi xv xm xh xl T2)) yr)
     = Inr (fresh xi xv xl (Some (fresh yi yv T2 yr)))"
  by (simp add: update_fresh)

lemma fresh_Node: "\<exists>m h. fresh i v l r = Node i v m h l r"
  by (simp add: fresh_def update.simps Let_def)

lemma rotL_fresh2:
  "rotL (Node xi xv xm xh xl (Some (fresh yi yv T2 yr)))
     = Inr (fresh yi yv (Some (fresh xi xv xl T2)) yr)"
  using fresh_Node[of yi yv T2 yr] by (auto simp: rotL_fresh simp del: rotL.simps)

lemma rotR_fresh2:
  "rotR (Node yi yv ym yh (Some (fresh xi xv xl T2)) yr)
     = Inr (fresh xi xv xl (Some (fresh yi yv T2 yr)))"
  using fresh_Node[of xi xv xl T2] by (auto simp: rotR_fresh simp del: rotR.simps)

lemma ht_pos: "0 < ht t \<Longrightarrow> \<exists>i v m h l r. t = Some (Node i v m h l r)"
  by (cases t rule: inorder.cases) auto

lemma rebalance_fresh:
  assumes "caches l" "caches r" "balanced l" "balanced r" "\<bar>int (ht l) - int (ht r)\<bar> \<le> 2"
  shows "\<exists>n'. rebalance (fresh i v l r) = Inr n'
           \<and> caches (Some n') \<and> balanced (Some n')
           \<and> inorder (Some n') = inorder l @ (i, v) # inorder r
           \<and> nodes (Some n') = nodes l + 1 + nodes r
           \<and> (ht (Some n') = max (ht l) (ht r) \<or> ht (Some n') = max (ht l) (ht r) + 1)
           \<and> (\<bar>int (ht l) - int (ht r)\<bar> \<le> 1 \<longrightarrow> n' = fresh i v l r)"
proof -
  obtain m h where f: "fresh i v l r = Node i v m h l r" using fresh_Node[of i v l r] by auto
  have bf: "bf (Node i v m h l r) = int (ht l) - int (ht r)"
    using bf_fresh[OF assms(1,2), of i v] by (simp add: f)
  consider (mid) "\<bar>int (ht l) - int (ht r)\<bar> \<le> 1"
    | (left) "ht l = ht r + 2" | (right) "ht r = ht l + 2"
    using assms(5) by linarith
  then show ?thesis
  proof cases
    case mid
    then have "rebalance (fresh i v l r) = Inr (fresh i v l r)"
      unfolding f using bf by (auto simp: rebalance.simps Let_def simp del: bf.simps)
    then show ?thesis using assms mid by simp
  next
    case left
    then obtain li lv lm lh ll lr where l: "l = Some (Node li lv lm lh ll lr)"
      using ht_pos[of l] by auto
    have cl: "caches ll" "caches lr" using assms(1) by (simp_all add: l caches_def)
    have bl: "balanced ll" "balanced lr" "\<bar>int (ht ll) - int (ht lr)\<bar> \<le> 1"
      using assms(3) by (simp_all add: l)
    have hl: "max (ht ll) (ht lr) = ht r + 1" using left by (simp add: l)
    have bfl: "bf (Node li lv lm lh ll lr) = int (ht ll) - int (ht lr)"
      using cl by (simp add: caches_height)
    show ?thesis
    proof (cases "ht ll < ht lr")
      case True
      then obtain ri rv rm rh rl rr where lr: "lr = Some (Node ri rv rm rh rl rr)"
        using ht_pos[of lr] by auto
      have cr: "caches rl" "caches rr" using cl(2) by (simp_all add: lr caches_def)
      have br: "balanced rl" "balanced rr" "\<bar>int (ht rl) - int (ht rr)\<bar> \<le> 1"
        using bl(2) by (simp_all add: lr)
      have hs: "ht lr = ht r + 1" "ht ll = ht r" "max (ht rl) (ht rr) = ht r"
        using True hl bl(3) by (auto simp: lr)
      have "rebalance (fresh i v l r)
              = Inr (fresh ri rv (Some (fresh li lv ll rl)) (Some (fresh i v rr r)))"
        unfolding f using bf bfl left True
        by (simp add: rebalance.simps Let_def l lr rotL_fresh rotR_fresh2
              del: bf.simps rotL.simps rotR.simps)
      then show ?thesis
        using assms cl bl cr br hs left by (auto simp: l lr max_def split: if_splits)
    next
      case False
      have hs: "ht ll = ht r + 1" "ht lr = ht r \<or> ht lr = ht r + 1"
        using False hl bl(3) by (auto simp: max_def)
      have "rebalance (fresh i v l r) = Inr (fresh li lv ll (Some (fresh i v lr r)))"
        unfolding f using bf bfl left False
        by (simp add: rebalance.simps Let_def l rotR_fresh
              del: bf.simps rotL.simps rotR.simps)
      then show ?thesis
        using assms cl bl hs left by (auto simp: l max_def)
    qed
  next
    case right
    then obtain ri rv rm rh rl rr where r: "r = Some (Node ri rv rm rh rl rr)"
      using ht_pos[of r] by auto
    have cr: "caches rl" "caches rr" using assms(2) by (simp_all add: r caches_def)
    have br: "balanced rl" "balanced rr" "\<bar>int (ht rl) - int (ht rr)\<bar> \<le> 1"
      using assms(4) by (simp_all add: r)
    have hr: "max (ht rl) (ht rr) = ht l + 1" using right by (simp add: r)
    have bfr: "bf (Node ri rv rm rh rl rr) = int (ht rl) - int (ht rr)"
      using cr by (simp add: caches_height)
    show ?thesis
    proof (cases "ht rl > ht rr")
      case True
      then obtain li lv lm lh ll lr where rl: "rl = Some (Node li lv lm lh ll lr)"
        using ht_pos[of rl] by auto
      have cl: "caches ll" "caches lr" using cr(1) by (simp_all add: rl caches_def)
      have bl: "balanced ll" "balanced lr" "\<bar>int (ht ll) - int (ht lr)\<bar> \<le> 1"
        using br(1) by (simp_all add: rl)
      have hs: "ht rl = ht l + 1" "ht rr = ht l" "max (ht ll) (ht lr) = ht l"
        using True hr br(3) by (auto simp: rl)
      have "rebalance (fresh i v l r)
              = Inr (fresh li lv (Some (fresh i v l ll)) (Some (fresh ri rv lr rr)))"
        unfolding f using bf bfr right True
        by (simp add: rebalance.simps Let_def r rl rotR_fresh rotL_fresh2
              del: bf.simps rotL.simps rotR.simps)
      then show ?thesis
        using assms cl bl cr br hs right by (auto simp: r rl max_def split: if_splits)
    next
      case False
      have hs: "ht rr = ht l + 1" "ht rl = ht l \<or> ht rl = ht l + 1"
        using False hr br(3) by (auto simp: max_def)
      have "rebalance (fresh i v l r) = Inr (fresh ri rv (Some (fresh i v l rl)) rr)"
        unfolding f using bf bfr right False
        by (simp add: rebalance.simps Let_def r rotL_fresh
              del: bf.simps rotL.simps rotR.simps)
      then show ?thesis
        using assms cr br hs right by (auto simp: r max_def)
    qed
  qed
qed

section \<open>The three outcomes of a comparison\<close>

lemma compareTo_cases:
  obtains (lt) "compareTo k i < 0" "key k < key i"
  | (gt) "\<not> compareTo k i < 0" "compareTo k i > 0" "key i < key k"
  | (eq) "\<not> compareTo k i < 0" "\<not> compareTo k i > 0" "k = i"
proof -
  consider "key k < key i" | "key i < key k" | "key k = key i" by (meson linorder_less_linear)
  then show ?thesis
  proof cases
    case 1
    then show ?thesis using lt by (simp add: compareTo_neg)
  next
    case 2
    then have "\<not> key k < key i" by simp
    then show ?thesis using 2 gt by (simp add: compareTo_neg compareTo_pos)
  next
    case 3
    then have "k = i" by (simp add: key_inj)
    then show ?thesis using eq by (simp add: compareTo_def)
  qed
qed

lemma filter_all: "\<forall>e \<in> set xs. P e \<Longrightarrow> filter P xs = xs"
  by (induction xs) auto

lemma filter_none: "\<forall>e \<in> set xs. \<not> P e \<Longrightarrow> filter P xs = []"
  by (induction xs) auto

section \<open>The strict order as an ascending sequence\<close>

lemma bst_inorder: "bst t \<longleftrightarrow> sorted_wrt (<) (map entry_key (inorder t))"
proof -
  have "map key (keys t) = map entry_key (inorder t)"
    by (simp add: keys_def entry_key_def comp_def)
  then show ?thesis by (simp add: bst_sorted)
qed

lemma sorted_insert_between:
  assumes "sorted_wrt (<) (map entry_key xs)"
  shows "sorted_wrt (<) (map entry_key
           (filter (\<lambda>e. entry_key e < key k) xs @ (k, val) # filter (\<lambda>e. key k < entry_key e) xs))"
proof -
  have s: "sorted_wrt (\<lambda>x y. entry_key x < entry_key y) xs"
    using assms by (simp add: sorted_wrt_map)
  have "sorted_wrt (\<lambda>x y. entry_key x < entry_key y)
           (filter (\<lambda>e. entry_key e < key k) xs @ (k, val) # filter (\<lambda>e. key k < entry_key e) xs)"
    using sorted_wrt_filter[OF s, of "\<lambda>e. entry_key e < key k"]
      sorted_wrt_filter[OF s, of "\<lambda>e. key k < entry_key e"]
    by (auto simp: sorted_wrt_append entry_key_def)
  then show ?thesis unfolding sorted_wrt_map .
qed

section \<open>Removing the in-order successor\<close>

lemma rebalance_shrunk_left:
  assumes "caches l'" "caches r" "balanced l'" "balanced r"
    "\<bar>int (ht l) - int (ht r)\<bar> \<le> 1" "ht l' = ht l \<or> ht l' + 1 = ht l"
  shows "\<exists>n'. rebalance (fresh i v l' r) = Inr n'
           \<and> caches (Some n') \<and> balanced (Some n')
           \<and> inorder (Some n') = inorder l' @ (i, v) # inorder r
           \<and> nodes (Some n') = nodes l' + 1 + nodes r
           \<and> (ht (Some n') = max (ht l) (ht r) + 1 \<or> ht (Some n') = max (ht l) (ht r))
           \<and> (ht l' = ht l \<longrightarrow> n' = fresh i v l' r)"
proof -
  have "\<bar>int (ht l') - int (ht r)\<bar> \<le> 2" using assms(5,6) by auto
  then obtain n' where n': "rebalance (fresh i v l' r) = Inr n'"
       "caches (Some n')" "balanced (Some n')"
       "inorder (Some n') = inorder l' @ (i, v) # inorder r"
       "nodes (Some n') = nodes l' + 1 + nodes r"
       "ht (Some n') = max (ht l') (ht r) \<or> ht (Some n') = max (ht l') (ht r) + 1"
       "\<bar>int (ht l') - int (ht r)\<bar> \<le> 1 \<longrightarrow> n' = fresh i v l' r"
    using rebalance_fresh[OF assms(1,2,3,4), of i v] by blast
  have "ht (Some n') = max (ht l) (ht r) + 1 \<or> ht (Some n') = max (ht l) (ht r)"
    using n'(6,7) assms(5,6) by (auto simp: max_def split: if_splits)
  moreover have "ht l' = ht l \<longrightarrow> n' = fresh i v l' r"
    using n'(7) assms(5) by simp
  ultimately show ?thesis using n'(1-5) by blast
qed

lemma rebalance_shrunk_right:
  assumes "caches l" "caches r'" "balanced l" "balanced r'"
    "\<bar>int (ht l) - int (ht r)\<bar> \<le> 1" "ht r' = ht r \<or> ht r' + 1 = ht r"
  shows "\<exists>n'. rebalance (fresh i v l r') = Inr n'
           \<and> caches (Some n') \<and> balanced (Some n')
           \<and> inorder (Some n') = inorder l @ (i, v) # inorder r'
           \<and> nodes (Some n') = nodes l + 1 + nodes r'
           \<and> (ht (Some n') = max (ht l) (ht r) + 1 \<or> ht (Some n') = max (ht l) (ht r))
           \<and> (ht r' = ht r \<longrightarrow> n' = fresh i v l r')"
proof -
  have "\<bar>int (ht l) - int (ht r')\<bar> \<le> 2" using assms(5,6) by auto
  then obtain n' where n': "rebalance (fresh i v l r') = Inr n'"
       "caches (Some n')" "balanced (Some n')"
       "inorder (Some n') = inorder l @ (i, v) # inorder r'"
       "nodes (Some n') = nodes l + 1 + nodes r'"
       "ht (Some n') = max (ht l) (ht r') \<or> ht (Some n') = max (ht l) (ht r') + 1"
       "\<bar>int (ht l) - int (ht r')\<bar> \<le> 1 \<longrightarrow> n' = fresh i v l r'"
    using rebalance_fresh[OF assms(1,2,3,4), of i v] by blast
  have "ht (Some n') = max (ht l) (ht r) + 1 \<or> ht (Some n') = max (ht l) (ht r)"
    using n'(6,7) assms(5,6) by (auto simp: max_def split: if_splits)
  moreover have "ht r' = ht r \<longrightarrow> n' = fresh i v l r'"
    using n'(7) assms(5) by simp
  ultimately show ?thesis using n'(1-5) by blast
qed

lemma nodes_minNode: "nodes (Some (minNode n)) \<le> nodes (Some n)"
proof (induction "Some n" arbitrary: n rule: inorder.induct)
  case (2 i v m h l r)
  then show ?case by (cases l) auto
qed

lemma minNode_below: "Node i v m h (Some lc) r \<noteq> minNode lc"
proof
  assume "Node i v m h (Some lc) r = minNode lc"
  then have "nodes (Some (Node i v m h (Some lc) r)) = nodes (Some (minNode lc))" by simp
  then show False using nodes_minNode[of lc] by simp
qed

lemma delMin_ok:
  assumes "caches (Some n)" "balanced (Some n)"
  shows "\<exists>t'. delMin (Some n) (minNode n) = Inr t'
           \<and> caches t' \<and> balanced t'
           \<and> inorder (Some n) = (node_i (minNode n), node_v (minNode n)) # inorder t'
           \<and> (ht t' = ht (Some n) \<or> ht t' + 1 = ht (Some n))"
  using assms
proof (induction "Some n" arbitrary: n rule: inorder.induct)
  case (2 i v m h l r)
  have c: "caches l" "caches r" using "2.prems"(1) by (simp_all add: caches_def)
  have b: "balanced l" "balanced r" "\<bar>int (ht l) - int (ht r)\<bar> \<le> 1" using "2.prems"(2) by simp_all
  show ?case
  proof (cases l)
    case None
    then show ?thesis using c b by simp
  next
    case (Some lc)
    have ne: "Node i v m h l r \<noteq> minNode lc" unfolding Some by (rule minNode_below)
    obtain l' where l': "delMin (Some lc) (minNode lc) = Inr l'" "caches l'" "balanced l'"
      "inorder (Some lc) = (node_i (minNode lc), node_v (minNode lc)) # inorder l'"
      "ht l' = ht (Some lc) \<or> ht l' + 1 = ht (Some lc)"
      using "2.hyps"(1)[OF Some] c(1) b(1) unfolding Some by blast
    obtain n' where n': "rebalance (fresh i v l' r) = Inr n'"
      "caches (Some n')" "balanced (Some n')"
      "inorder (Some n') = inorder l' @ (i, v) # inorder r"
      "ht (Some n') = max (ht l) (ht r) + 1 \<or> ht (Some n') = max (ht l) (ht r)"
      using rebalance_shrunk_left[OF l'(2) c(2) l'(3) b(2) b(3), of i v] l'(5) Some by blast
    have "delMin (Some (Node i v m h l r)) (minNode (Node i v m h l r)) = Inr (Some n')"
      using ne l'(1) n'(1) by (simp add: Some update_fresh)
    then show ?thesis using n'(2,3,4,5) l'(4) by (auto simp: Some)
  qed
qed

section \<open>Keys of a node\<close>

lemma keys_Node: "set (keys (Some (Node i v m h l r))) = set (keys l) \<union> {i} \<union> set (keys r)"
  by (auto simp: keys_def)

lemma filter_ne_keep:
  assumes "\<forall>e \<in> set xs. entry_key e \<noteq> key k"
  shows "filter (\<lambda>e. fst e \<noteq> k) xs = xs"
  using assms by (intro filter_all) (auto simp: entry_key_def)

section \<open>Copying a tree\<close>

lemma cpy_id: "cpy t = t"
  by (induction t rule: inorder.induct) (auto simp: IntervalMapNode_def)

section \<open>Order of the array that is built\<close>

lemma entry_key_inj: "entry_key x = entry_key y \<longleftrightarrow> fst x = fst y"
  by (simp add: entry_key_def key_inj)

lemma distinct_entry_keys: "distinct (map entry_key xs) \<longleftrightarrow> distinct (map fst xs)"
  by (induction xs) (auto simp: entry_key_inj image_iff)

lemma strict_iff_distinct:
  assumes "sorted (map entry_key xs)"
  shows "sorted_wrt (<) (map entry_key xs) \<longleftrightarrow> distinct (map fst xs)"
  using assms strict_sorted_iff[of "map entry_key xs"] by (simp add: distinct_entry_keys)

lemma spec_merge_strict:
  assumes "\<forall>e\<in>set es. entry_key cur < entry_key e" "sorted_wrt (<) (map entry_key es)"
  shows "sorted_wrt (<) (map entry_key (spec_merge cur es))
       \<and> (\<forall>e'\<in>set (spec_merge cur es). entry_key cur \<le> entry_key e')"
  using assms
proof (induction es arbitrary: cur)
  case Nil
  show ?case by simp
next
  case (Cons e es)
  have tl: "\<forall>e'\<in>set es. entry_key e < entry_key e'" "sorted_wrt (<) (map entry_key es)"
    using Cons.prems(2) by simp_all
  show ?case
  proof (cases "snd e = snd cur \<and> iv_a (fst e) \<le> iv_b (fst cur)")
    case True
    let ?c = "(Interval (iv_a (fst cur)) (max (iv_b (fst cur)) (iv_b (fst e))), snd cur)"
    have ce: "entry_key cur < entry_key e" using Cons.prems by simp
    then have "entry_key ?c \<le> entry_key e" by (auto simp: entry_key_def key_def max_def)
    then have "\<forall>e'\<in>set es. entry_key ?c < entry_key e'" using tl(1) by (meson order_le_less_trans)
    then have "sorted_wrt (<) (map entry_key (spec_merge ?c es))
       \<and> (\<forall>e'\<in>set (spec_merge ?c es). entry_key ?c \<le> entry_key e')"
      using tl(2) by (rule Cons.IH)
    moreover have "entry_key cur \<le> entry_key ?c" by (auto simp: entry_key_def key_def max_def)
    ultimately show ?thesis using True by (auto intro: order_trans)
  next
    case False
    have "sorted_wrt (<) (map entry_key (spec_merge e es))
       \<and> (\<forall>e'\<in>set (spec_merge e es). entry_key e \<le> entry_key e')"
      using tl by (rule Cons.IH)
    moreover have "entry_key cur < entry_key e" using Cons.prems by simp
    ultimately show ?thesis using False by (auto intro: order_less_le_trans)
  qed
qed

lemma spec_coalesce_strict:
  assumes "sorted_wrt (<) (map entry_key xs)"
  shows "sorted_wrt (<) (map entry_key (spec_coalesce xs))"
proof (cases xs)
  case Nil
  then show ?thesis by simp
next
  case (Cons x ys)
  then show ?thesis using assms spec_merge_strict[of ys x] by simp
qed

lemma distinct_fst_sort_key: "distinct (map fst (sort_key f ps)) \<longleftrightarrow> distinct (map fst ps)"
proof -
  have "mset (map fst (sort_key f ps)) = mset (map fst ps)" by simp
  then show ?thesis by (rule mset_eq_imp_distinct_iff)
qed

lemma retained_strict:
  assumes "distinct (map fst ps)"
  shows "sorted_wrt (<) (map entry_key (retained ps ms))"
proof (cases ms)
  case True
  have "sorted (map sort_key3 (sort_key sort_key3 ps))" by (rule sorted_sort_key)
  then have "sorted (map entry_key (sort_key sort_key3 ps))" by (rule sorted_key3)
  then have "sorted_wrt (<) (map entry_key (sort_key sort_key3 ps))"
    using assms by (simp add: strict_iff_distinct distinct_fst_sort_key)
  then show ?thesis using True by (simp add: retained_def spec_coalesce_strict)
next
  case False
  have "sorted (map entry_key (sort_key entry_key ps))" by (rule sorted_sort_key)
  then have "sorted_wrt (<) (map entry_key (sort_key entry_key ps))"
    using assms by (simp add: strict_iff_distinct distinct_fst_sort_key)
  then show ?thesis using False by (simp add: retained_def)
qed

lemma fromArray_invariants:
  "\<exists>self. fromArray pairs mergeSame = Inr self
      \<and> balanced (m_root self) \<and> caches (m_root self)
      \<and> m_size self = int (nodes (m_root self))
      \<and> sorted (map entry_key (inorder (m_root self)))
      \<and> (invar self \<longleftrightarrow> distinct (keys (m_root self)))
      \<and> ((case pairs of None \<Rightarrow> True | Some ps \<Rightarrow> distinct (map fst ps)) \<longrightarrow> invar self)"
proof (cases pairs)
  case None
  then show ?thesis
    by (simp add: fromArray_def empty_map_def invar_def caches_def keys_def)
next
  case (Some ps)
  obtain self where self: "fromArray (Some ps) mergeSame = Inr self"
     "inorder (m_root self) = retained ps mergeSame"
     "hcache (m_root self)" "mcache (m_root self)" "balanced (m_root self)"
     "m_size self = int (length (retained ps mergeSame))"
    using fromArray_ok[of ps mergeSame] by blast
  have 1: "m_size self = int (nodes (m_root self))" using self(2,6) by (simp add: nodes_inorder)
  have 2: "sorted (map entry_key (inorder (m_root self)))"
    unfolding self(2) by (rule retained_sorted)
  have 3: "invar self \<longleftrightarrow> distinct (keys (m_root self))"
    using strict_iff_distinct[OF 2] 1 self(3,4,5)
    by (simp add: invar_def bst_inorder caches_def keys_def)
  have 4: "distinct (map fst ps) \<longrightarrow> invar self"
    using retained_strict[of ps mergeSame] 1 self(2,3,4,5)
    by (simp add: invar_def bst_inorder caches_def)
  show ?thesis using self(1,3,4,5) 1 2 3 4 by (auto simp: Some caches_def)
qed

section \<open>The non-strict order and overwriting in place\<close>

lemma compareTo_le: "compareTo x y \<le> 0 \<longleftrightarrow> key x \<le> key y"
  by (auto simp: compareTo_def key_def)

lemma compareTo_ge: "compareTo x y \<ge> 0 \<longleftrightarrow> key y \<le> key x"
  by (auto simp: compareTo_def key_def)

lemma wbst_Node:
  "wbst (Some (Node i v m h l r)) \<longleftrightarrow>
     (\<forall>e \<in> set (inorder l). entry_key e \<le> key i) \<and> (\<forall>e \<in> set (inorder r). key i \<le> entry_key e)
     \<and> wbst l \<and> wbst r"
  by (auto simp: keys_def compareTo_le compareTo_ge entry_key_def)

lemma wbst_inorder: "wbst t \<longleftrightarrow> sorted (map entry_key (inorder t))"
proof (induction t rule: inorder.induct)
  case 1
  show ?case by simp
next
  case (2 i v m h l r)
  have "sorted (map entry_key (inorder (Some (Node i v m h l r)))) \<longleftrightarrow>
      (\<forall>e\<in>set (inorder l). entry_key e \<le> key i) \<and> (\<forall>e\<in>set (inorder r). key i \<le> entry_key e)
      \<and> sorted (map entry_key (inorder l)) \<and> sorted (map entry_key (inorder r))"
    by (auto simp: sorted_append entry_key_def intro: order_trans)
  then show ?case using 2 by (simp only: wbst_Node)
qed

lemma bst_wbst: "bst t \<Longrightarrow> wbst t"
  unfolding bst_inorder wbst_inorder by (rule strict_sorted_imp_sorted)

lemma invar_winvar: "invar self \<Longrightarrow> winvar self"
  by (simp add: invar_def winvar_def bst_wbst)

lemma put_first_ht [simp]: "ht (put_first k val t) = ht t"
  by (induction t rule: inorder.induct) auto

lemma put_first_nodes [simp]: "nodes (put_first k val t) = nodes t"
  by (induction t rule: inorder.induct) auto

lemma put_first_keys: "map fst (inorder (put_first k val t)) = map fst (inorder t)"
proof (induction t rule: inorder.induct)
  case 1
  show ?case by simp
next
  case (2 i v m h l r)
  then show ?case by (cases k i rule: compareTo_cases) auto
qed

lemma put_first_entry_keys: "map entry_key (inorder (put_first k val t)) = map entry_key (inorder t)"
proof -
  have "map entry_key xs = map key (map fst xs)" for xs :: "'a entry list"
    by (simp add: entry_key_def comp_def)
  then show ?thesis by (simp only: put_first_keys)
qed

lemma put_first_smax:
  "(case put_first k val t of None \<Rightarrow> d | Some x \<Rightarrow> smax x) = (case t of None \<Rightarrow> d | Some x \<Rightarrow> smax x)"
proof (induction t arbitrary: d rule: inorder.induct)
  case 1
  show ?case by simp
next
  case (2 i v m h l r)
  show ?case using "2.IH"(1)[of "iv_b i"] "2.IH"(2)[of "iv_b i"] by simp
qed

lemma put_first_caches: "caches t \<Longrightarrow> caches (put_first k val t)"
proof (induction t rule: inorder.induct)
  case 1
  show ?case by (simp add: caches_def)
next
  case (2 i v m h l r)
  have c: "caches (put_first k val l)" "caches (put_first k val r)"
    using 2 by (simp_all add: caches_def)
  show ?case
    using c "2.prems"
      put_first_smax[where t = l and d = "iv_b i" and k = k and val = val]
      put_first_smax[where t = r and d = "iv_b i" and k = k and val = val]
    by (simp add: caches_def)
qed

lemma put_first_balanced: "balanced t \<Longrightarrow> balanced (put_first k val t)"
  by (induction t rule: inorder.induct) auto

lemma ins_present_first:
  assumes "caches t" "balanced t" "wbst t" "it \<in> set (keys t)"
  shows "\<exists>n'. ins it val t sz = Inr (n', sz) \<and> put_first it val t = Some n'
           \<and> get_loop (iv_a it) (iv_b it) (Some n') = Some val"
  using assms
proof (induction t arbitrary: sz rule: inorder.induct)
  case 1
  then show ?case by (simp add: keys_def)
next
  case (2 i v m h l r)
  have c: "caches l" "caches r" using "2.prems"(1) by (simp_all add: caches_def)
  have b: "balanced l" "balanced r" using "2.prems"(2) by simp_all
  have o: "\<forall>e \<in> set (inorder l). entry_key e \<le> key i" "\<forall>e \<in> set (inorder r). key i \<le> entry_key e"
    "wbst l" "wbst r"
    using "2.prems"(3)[unfolded wbst_Node] by blast+
  let ?t = "Some (Node i v m h l r)"
  obtain n where n: "put_first it val ?t = Some n" by (cases it i rule: compareTo_cases) auto
  have cn: "caches (Some n)" "balanced (Some n)"
    using put_first_caches[OF "2.prems"(1), of it val] put_first_balanced[OF "2.prems"(2), of it val]
    unfolding n by simp_all
  show ?case
  proof (cases it i rule: compareTo_cases)
    case lt
    then have inl: "it \<in> set (keys l)"
      using "2.prems"(4) o(2) by (auto simp: keys_def entry_key_def)
    obtain l' where l': "ins it val l sz = Inr (l', sz)" "put_first it val l = Some l'"
      "get_loop (iv_a it) (iv_b it) (Some l') = Some val"
      using "2.IH"(1)[OF c(1) b(1) o(3) inl, of sz] by blast
    have nn: "n = Node i v m h (Some l') r"
      using n l'(2) lt(1) by auto
    have "rebalance (fresh i v (Some l') r) = Inr n"
      using fresh_id[OF cn(1) nn] rebalance_id[of n] cn by (simp add: caches_def)
    moreover have "get_loop (iv_a it) (iv_b it) (Some n) = Some val"
      using l'(3) lt(2) unfolding nn by (auto simp: key_def)
    ultimately show ?thesis using lt(1) l'(1) n by (simp add: update_fresh)
  next
    case gt
    then have inr: "it \<in> set (keys r)"
      using "2.prems"(4) o(1) by (auto simp: keys_def entry_key_def)
    obtain r' where r': "ins it val r sz = Inr (r', sz)" "put_first it val r = Some r'"
      "get_loop (iv_a it) (iv_b it) (Some r') = Some val"
      using "2.IH"(2)[OF c(2) b(2) o(4) inr, of sz] by blast
    have nn: "n = Node i v m h l (Some r')"
      using n r'(2) gt(1,2) by auto
    have "rebalance (fresh i v l (Some r')) = Inr n"
      using fresh_id[OF cn(1) nn] rebalance_id[of n] cn by (simp add: caches_def)
    moreover have "get_loop (iv_a it) (iv_b it) (Some n) = Some val"
      using r'(3) gt(3) unfolding nn by (auto simp: key_def)
    ultimately show ?thesis using gt(1,2) r'(1) n by (simp add: update_fresh)
  next
    case eq
    then show ?thesis by simp
  qed
qed

section \<open>Insertion under the non-strict order\<close>

lemma ins_new:
  assumes "caches t" "balanced t" "wbst t" "it \<notin> set (keys t)"
  shows "\<exists>n'. ins it val t sz = Inr (n', sz + 1)
           \<and> caches (Some n') \<and> balanced (Some n')
           \<and> inorder (Some n') = filter (\<lambda>e. entry_key e < key it) (inorder t) @ (it, val)
                 # filter (\<lambda>e. key it < entry_key e) (inorder t)
           \<and> nodes (Some n') = nodes t + 1
           \<and> (ht (Some n') = ht t \<or> ht (Some n') = ht t + 1)"
  using assms
proof (induction t arbitrary: sz rule: inorder.induct)
  case 1
  show ?case by (simp add: IntervalMapNode_def caches_def)
next
  case (2 i v m h l r)
  have c: "caches l" "caches r" using "2.prems"(1) by (simp_all add: caches_def)
  have b: "balanced l" "balanced r" "\<bar>int (ht l) - int (ht r)\<bar> \<le> 1" using "2.prems"(2) by simp_all
  have o: "\<forall>e \<in> set (inorder l). entry_key e \<le> key i" "\<forall>e \<in> set (inorder r). key i \<le> entry_key e"
    "wbst l" "wbst r"
    using "2.prems"(3)[unfolded wbst_Node] by blast+
  have a: "it \<notin> set (keys l)" "it \<notin> set (keys r)" "it \<noteq> i"
    using "2.prems"(4) by (auto simp: keys_def)
  show ?case
  proof (cases it i rule: compareTo_cases)
    case lt
    obtain l' where l': "ins it val l sz = Inr (l', sz + 1)"
      "caches (Some l')" "balanced (Some l')"
      "inorder (Some l') = filter (\<lambda>e. entry_key e < key it) (inorder l) @ (it, val)
                 # filter (\<lambda>e. key it < entry_key e) (inorder l)"
      "nodes (Some l') = nodes l + 1"
      "ht (Some l') = ht l \<or> ht (Some l') = ht l + 1"
      using "2.IH"(1)[OF c(1) b(1) o(3) a(1), of sz] by blast
    have "\<bar>int (ht (Some l')) - int (ht r)\<bar> \<le> 2" using l'(6) b(3) by auto
    then obtain n' where n': "rebalance (fresh i v (Some l') r) = Inr n'"
       "caches (Some n')" "balanced (Some n')"
       "inorder (Some n') = inorder (Some l') @ (i, v) # inorder r"
       "nodes (Some n') = nodes (Some l') + 1 + nodes r"
       "ht (Some n') = max (ht (Some l')) (ht r) \<or> ht (Some n') = max (ht (Some l')) (ht r) + 1"
       "\<bar>int (ht (Some l')) - int (ht r)\<bar> \<le> 1 \<longrightarrow> n' = fresh i v (Some l') r"
      using rebalance_fresh[OF l'(2) c(2) l'(3) b(2), of i v] by blast
    have 1: "ins it val (Some (Node i v m h l r)) sz = Inr (n', sz + 1)"
      using lt l'(1) n'(1) by (simp add: update_fresh)
    have fl: "filter (\<lambda>e. entry_key e < key it) (inorder r) = []"
      "filter (\<lambda>e. key it < entry_key e) (inorder r) = inorder r"
      using o(2) lt(2) by (auto intro!: filter_none filter_all)
    have 2: "inorder (Some n') = filter (\<lambda>e. entry_key e < key it) (inorder (Some (Node i v m h l r)))
                 @ (it, val) # filter (\<lambda>e. key it < entry_key e) (inorder (Some (Node i v m h l r)))"
      using n'(4) l'(4) fl lt(2) by (simp add: entry_key_def)
    have 3: "ht (Some n') = ht (Some (Node i v m h l r)) \<or> ht (Some n') = ht (Some (Node i v m h l r)) + 1"
      using n'(6,7) l'(6) b(3) by (auto simp: max_def split: if_splits)
    have 4: "nodes (Some n') = nodes (Some (Node i v m h l r)) + 1" using n'(5) l'(5) by simp
    show ?thesis using 1 2 3 4 n'(2,3) by blast
  next
    case gt
    obtain r' where r': "ins it val r sz = Inr (r', sz + 1)"
      "caches (Some r')" "balanced (Some r')"
      "inorder (Some r') = filter (\<lambda>e. entry_key e < key it) (inorder r) @ (it, val)
                 # filter (\<lambda>e. key it < entry_key e) (inorder r)"
      "nodes (Some r') = nodes r + 1"
      "ht (Some r') = ht r \<or> ht (Some r') = ht r + 1"
      using "2.IH"(2)[OF c(2) b(2) o(4) a(2), of sz] by blast
    have "\<bar>int (ht l) - int (ht (Some r'))\<bar> \<le> 2" using r'(6) b(3) by auto
    then obtain n' where n': "rebalance (fresh i v l (Some r')) = Inr n'"
       "caches (Some n')" "balanced (Some n')"
       "inorder (Some n') = inorder l @ (i, v) # inorder (Some r')"
       "nodes (Some n') = nodes l + 1 + nodes (Some r')"
       "ht (Some n') = max (ht l) (ht (Some r')) \<or> ht (Some n') = max (ht l) (ht (Some r')) + 1"
       "\<bar>int (ht l) - int (ht (Some r'))\<bar> \<le> 1 \<longrightarrow> n' = fresh i v l (Some r')"
      using rebalance_fresh[OF c(1) r'(2) b(1) r'(3), of i v] by blast
    have 1: "ins it val (Some (Node i v m h l r)) sz = Inr (n', sz + 1)"
      using gt r'(1) n'(1) by (simp add: update_fresh)
    have fl: "filter (\<lambda>e. entry_key e < key it) (inorder l) = inorder l"
      "filter (\<lambda>e. key it < entry_key e) (inorder l) = []"
      using o(1) gt(3) by (auto intro!: filter_none filter_all)
    have 2: "inorder (Some n') = filter (\<lambda>e. entry_key e < key it) (inorder (Some (Node i v m h l r)))
                 @ (it, val) # filter (\<lambda>e. key it < entry_key e) (inorder (Some (Node i v m h l r)))"
      using n'(4) r'(4) fl gt(3) by (simp add: entry_key_def)
    have 3: "ht (Some n') = ht (Some (Node i v m h l r)) \<or> ht (Some n') = ht (Some (Node i v m h l r)) + 1"
      using n'(6,7) r'(6) b(3) by (auto simp: max_def split: if_splits)
    have 4: "nodes (Some n') = nodes (Some (Node i v m h l r)) + 1" using n'(5) r'(5) by simp
    show ?thesis using 1 2 3 4 n'(2,3) by blast
  next
    case eq
    then show ?thesis using a(3) by simp
  qed
qed

lemma sorted_insert_between_le:
  assumes "sorted (map entry_key xs)"
  shows "sorted (map entry_key
           (filter (\<lambda>e. entry_key e < key k) xs @ (k, val) # filter (\<lambda>e. key k < entry_key e) xs))"
proof -
  have s: "sorted_wrt (\<lambda>x y. entry_key x \<le> entry_key y) xs"
    using assms by (simp add: sorted_wrt_map)
  have "sorted_wrt (\<lambda>x y. entry_key x \<le> entry_key y)
           (filter (\<lambda>e. entry_key e < key k) xs @ (k, val) # filter (\<lambda>e. key k < entry_key e) xs)"
    using sorted_wrt_filter[OF s, of "\<lambda>e. entry_key e < key k"]
      sorted_wrt_filter[OF s, of "\<lambda>e. key k < entry_key e"]
    by (auto simp: sorted_wrt_append entry_key_def)
  then show ?thesis unfolding sorted_wrt_map .
qed

lemma get_loop_unique:
  "wbst t \<Longrightarrow> (k, val) \<in> set (inorder t) \<Longrightarrow>
   \<forall>e \<in> set (inorder t). fst e = k \<longrightarrow> snd e = val \<Longrightarrow>
   get_loop (iv_a k) (iv_b k) t = Some val"
proof (induction t rule: inorder.induct)
  case 1
  then show ?case by simp
next
  case (2 i v m h l r)
  have o: "\<forall>e \<in> set (inorder l). entry_key e \<le> key i" "\<forall>e \<in> set (inorder r). key i \<le> entry_key e"
    "wbst l" "wbst r"
    using "2.prems"(1)[unfolded wbst_Node] by blast+
  have u: "\<forall>e \<in> set (inorder l). fst e = k \<longrightarrow> snd e = val"
    "\<forall>e \<in> set (inorder r). fst e = k \<longrightarrow> snd e = val"
    "i = k \<longrightarrow> v = val"
    using "2.prems"(3) by auto
  have m: "(k, val) \<in> set (inorder l) \<or> (k, val) = (i, v) \<or> (k, val) \<in> set (inorder r)"
    using "2.prems"(2) by auto
  show ?case
  proof (cases k i rule: compareTo_cases)
    case lt
    have "(k, val) \<notin> set (inorder r)"
      using o(2) lt(2) by (force simp: entry_key_def)
    then have inl: "(k, val) \<in> set (inorder l)" using m lt(2) by auto
    have "get_loop (iv_a k) (iv_b k) l = Some val" by (rule "2.IH"(1)[OF o(3) inl u(1)])
    then show ?thesis using lt(2) by (auto simp: key_def)
  next
    case gt
    have "(k, val) \<notin> set (inorder l)"
      using o(1) gt(3) by (force simp: entry_key_def)
    then have inr: "(k, val) \<in> set (inorder r)" using m gt(3) by auto
    have "get_loop (iv_a k) (iv_b k) r = Some val" by (rule "2.IH"(2)[OF o(4) inr u(2)])
    then show ?thesis using gt(3) by (auto simp: key_def)
  next
    case eq
    then have "val = v" using u(3) by simp
    then show ?thesis using eq by simp
  qed
qed

lemma set_ok_w:
  assumes "winvar self"
  shows "\<exists>self'. set_iv (AnInterval k) v self = Inr self' \<and> winvar self'
           \<and> (invar self \<longrightarrow> invar self')
           \<and> get (AnInterval k) self' = Inr (Some v)
           \<and> (k \<in> set (keys (m_root self)) \<longrightarrow>
                 m_size self' = m_size self \<and> m_root self' = put_first k v (m_root self))
           \<and> (k \<notin> set (keys (m_root self)) \<longrightarrow> m_size self' = m_size self + 1)"
proof -
  let ?t = "m_root self"
  have a: "caches ?t" "balanced ?t" "wbst ?t" "m_size self = int (nodes ?t)"
    using assms by (simp_all add: winvar_def)
  show ?thesis
  proof (cases "k \<in> set (keys ?t)")
    case True
    obtain n' where n': "ins k v ?t (m_size self) = Inr (n', m_size self)"
      "put_first k v ?t = Some n'" "get_loop (iv_a k) (iv_b k) (Some n') = Some v"
      using ins_present_first[OF a(1,2,3) True, of v "m_size self"] by blast
    let ?self' = "self\<lparr>m_root := Some n', m_size := m_size self\<rparr>"
    have 1: "set_iv (AnInterval k) v self = Inr ?self'" using n'(1) by (simp add: set_iv_def)
    have k: "map entry_key (inorder (Some n')) = map entry_key (inorder ?t)"
      using put_first_entry_keys[of k v ?t] by (simp add: n'(2))
    have c: "caches (Some n')" "balanced (Some n')" "nodes (Some n') = nodes ?t"
      using put_first_caches[OF a(1), of k v] put_first_balanced[OF a(2), of k v]
        put_first_nodes[of k v ?t] by (simp_all add: n'(2))
    have 2: "winvar ?self'" using a c k by (simp add: winvar_def wbst_inorder)
    have 3: "invar self \<longrightarrow> invar ?self'" using a c k by (simp add: invar_def bst_inorder)
    have 4: "get (AnInterval k) ?self' = Inr (Some v)" using n'(3) by (simp add: get_def)
    show ?thesis using 1 2 3 4 True n'(2) by (intro exI[of _ ?self']) simp
  next
    case False
    let ?xs = "inorder ?t"
    obtain n' where n': "ins k v ?t (m_size self) = Inr (n', m_size self + 1)"
      "caches (Some n')" "balanced (Some n')"
      "inorder (Some n') = filter (\<lambda>e. entry_key e < key k) ?xs @ (k, v)
                 # filter (\<lambda>e. key k < entry_key e) ?xs"
      "nodes (Some n') = nodes ?t + 1"
      using ins_new[OF a(1,2,3) False, of v "m_size self"] by blast
    let ?self' = "self\<lparr>m_root := Some n', m_size := m_size self + 1\<rparr>"
    have 1: "set_iv (AnInterval k) v self = Inr ?self'" using n'(1) by (simp add: set_iv_def)
    have w: "wbst (Some n')"
      using a(3) unfolding wbst_inorder n'(4) by (rule sorted_insert_between_le)
    have 2: "winvar ?self'" using w n'(2,3,5) a(4) by (simp add: winvar_def)
    have 3: "invar self \<longrightarrow> invar ?self'"
    proof
      assume "invar self"
      then have "sorted_wrt (<) (map entry_key ?xs)" by (simp add: invar_def bst_inorder)
      then have "bst (Some n')" unfolding bst_inorder n'(4) by (rule sorted_insert_between)
      then show "invar ?self'" using n'(2,3,5) a(4) by (simp add: invar_def)
    qed
    have "(k, v) \<in> set (inorder (Some n'))" unfolding n'(4) by simp
    moreover have "\<forall>e \<in> set (inorder (Some n')). fst e = k \<longrightarrow> snd e = v"
      unfolding n'(4) by (auto simp: entry_key_def)
    ultimately have "get_loop (iv_a k) (iv_b k) (Some n') = Some v"
      using w by (intro get_loop_unique)
    then have 4: "get (AnInterval k) ?self' = Inr (Some v)" by (simp add: get_def)
    show ?thesis using 1 2 3 4 False by (intro exI[of _ ?self']) simp
  qed
qed

section \<open>Deletion under the non-strict order, and the reachable maps\<close>

lemma del_w:
  assumes "caches t" "balanced t" "wbst t"
  shows "\<exists>t'. del it t removed = Inr (t', removed \<or> it \<in> set (keys t))
           \<and> caches t' \<and> balanced t'
           \<and> (ht t' = ht t \<or> ht t' + 1 = ht t)
           \<and> (it \<notin> set (keys t) \<longrightarrow> t' = t)
           \<and> (it \<in> set (keys t) \<longrightarrow>
                (\<exists>xs v ys. inorder t = xs @ (it, v) # ys \<and> inorder t' = xs @ ys))"
  using assms
proof (induction t rule: inorder.induct)
  case 1
  show ?case by (simp add: keys_def caches_def)
next
  case (2 i v m h l r)
  let ?t = "Some (Node i v m h l r)"
  have c: "caches l" "caches r" using "2.prems"(1) by (simp_all add: caches_def)
  have b: "balanced l" "balanced r" "\<bar>int (ht l) - int (ht r)\<bar> \<le> 1" using "2.prems"(2) by simp_all
  have o: "\<forall>e \<in> set (inorder l). entry_key e \<le> key i" "\<forall>e \<in> set (inorder r). key i \<le> entry_key e"
    "wbst l" "wbst r"
    using "2.prems"(3)[unfolded wbst_Node] by blast+
  have fid: "fresh i v l r = Node i v m h l r"
    using fresh_id[OF "2.prems"(1)] by simp
  show ?case
  proof (cases it i rule: compareTo_cases)
    case lt
    have notr: "it \<notin> set (keys r)" "it \<noteq> i" using lt(2) o(2) by (auto simp: keys_def entry_key_def)
    obtain l' where l': "del it l removed = Inr (l', removed \<or> it \<in> set (keys l))"
      "caches l'" "balanced l'"
      "ht l' = ht l \<or> ht l' + 1 = ht l" "it \<notin> set (keys l) \<longrightarrow> l' = l"
      "it \<in> set (keys l) \<longrightarrow> (\<exists>xs v ys. inorder l = xs @ (it, v) # ys \<and> inorder l' = xs @ ys)"
      using "2.IH"(1)[OF c(1) b(1) o(3)] by blast
    obtain n' where n': "rebalance (fresh i v l' r) = Inr n'"
      "caches (Some n')" "balanced (Some n')"
      "inorder (Some n') = inorder l' @ (i, v) # inorder r"
      "ht (Some n') = max (ht l) (ht r) + 1 \<or> ht (Some n') = max (ht l) (ht r)"
      "ht l' = ht l \<longrightarrow> n' = fresh i v l' r"
      using rebalance_shrunk_left[OF l'(2) c(2) l'(3) b(2) b(3) l'(4), of i v] by blast
    have 1: "del it ?t removed = Inr (Some n', removed \<or> it \<in> set (keys ?t))"
      using lt(1) l'(1) n'(1) notr by (simp add: update_fresh keys_Node)
    have 2: "\<exists>xs v' ys. inorder ?t = xs @ (it, v') # ys \<and> inorder (Some n') = xs @ ys"
      if "it \<in> set (keys ?t)"
    proof -
      have "it \<in> set (keys l)" using that notr by (simp add: keys_Node)
      then obtain xs v' ys where "inorder l = xs @ (it, v') # ys" "inorder l' = xs @ ys"
        using l'(6) by blast
      then have "inorder ?t = xs @ (it, v') # (ys @ (i, v) # inorder r)"
        "inorder (Some n') = xs @ (ys @ (i, v) # inorder r)"
        using n'(4) by simp_all
      then show ?thesis by blast
    qed
    have 3: "ht (Some n') = ht ?t \<or> ht (Some n') + 1 = ht ?t" using n'(5) by auto
    have 4: "it \<notin> set (keys ?t) \<longrightarrow> Some n' = ?t"
      using l'(5) n'(6) fid by (auto simp: keys_Node)
    show ?thesis using 1 2 3 4 n'(2,3) by blast
  next
    case gt
    have notl: "it \<notin> set (keys l)" "it \<noteq> i" using gt(3) o(1) by (auto simp: keys_def entry_key_def)
    obtain r' where r': "del it r removed = Inr (r', removed \<or> it \<in> set (keys r))"
      "caches r'" "balanced r'"
      "ht r' = ht r \<or> ht r' + 1 = ht r" "it \<notin> set (keys r) \<longrightarrow> r' = r"
      "it \<in> set (keys r) \<longrightarrow> (\<exists>xs v ys. inorder r = xs @ (it, v) # ys \<and> inorder r' = xs @ ys)"
      using "2.IH"(2)[OF c(2) b(2) o(4)] by blast
    obtain n' where n': "rebalance (fresh i v l r') = Inr n'"
      "caches (Some n')" "balanced (Some n')"
      "inorder (Some n') = inorder l @ (i, v) # inorder r'"
      "ht (Some n') = max (ht l) (ht r) + 1 \<or> ht (Some n') = max (ht l) (ht r)"
      "ht r' = ht r \<longrightarrow> n' = fresh i v l r'"
      using rebalance_shrunk_right[OF c(1) r'(2) b(1) r'(3) b(3) r'(4), of i v] by blast
    have 1: "del it ?t removed = Inr (Some n', removed \<or> it \<in> set (keys ?t))"
      using gt(1,2) r'(1) n'(1) notl by (simp add: update_fresh keys_Node)
    have 2: "\<exists>xs v' ys. inorder ?t = xs @ (it, v') # ys \<and> inorder (Some n') = xs @ ys"
      if "it \<in> set (keys ?t)"
    proof -
      have "it \<in> set (keys r)" using that notl by (simp add: keys_Node)
      then obtain xs v' ys where "inorder r = xs @ (it, v') # ys" "inorder r' = xs @ ys"
        using r'(6) by blast
      then have "inorder ?t = (inorder l @ (i, v) # xs) @ (it, v') # ys"
        "inorder (Some n') = (inorder l @ (i, v) # xs) @ ys"
        using n'(4) by simp_all
      then show ?thesis by blast
    qed
    have 3: "ht (Some n') = ht ?t \<or> ht (Some n') + 1 = ht ?t" using n'(5) by auto
    have 4: "it \<notin> set (keys ?t) \<longrightarrow> Some n' = ?t"
      using r'(5) n'(6) fid by (auto simp: keys_Node)
    show ?thesis using 1 2 3 4 n'(2,3) by blast
  next
    case eq
    have mem: "it \<in> set (keys ?t)" using eq(3) by (simp add: keys_Node)
    have split: "inorder ?t = inorder l @ (it, v) # inorder r" using eq(3) by simp
    show ?thesis
    proof (cases "l = None \<or> r = None")
      case True
      define tmp where "tmp = (if l \<noteq> None then l else r)"
      have tmp: "caches tmp" "balanced tmp" "inorder tmp = inorder l @ inorder r" "ht tmp + 1 = ht ?t"
        using True c b by (auto simp: tmp_def)
      show ?thesis
      proof (cases tmp)
        case None
        then have d: "del it ?t removed = Inr (None, True)"
          using eq(1,2) True by (simp add: tmp_def)
        have e: "inorder l = []" "inorder r = []" using tmp(3) None by simp_all
        have "\<exists>xs v' ys. inorder ?t = xs @ (it, v') # ys \<and> inorder None = xs @ ys"
          using split e by simp
        moreover have "ht None + 1 = ht ?t" using tmp(4) None by simp
        moreover have "caches None" "balanced None" by (simp_all add: caches_def)
        ultimately show ?thesis using d mem by (intro exI[of _ None]) simp
      next
        case (Some n)
        have "rebalance (update n) = Inr n"
          using tmp(1,2) update_id[of n] rebalance_id[of n] by (simp add: Some caches_def)
        then have "del it ?t removed = Inr (Some n, True)"
          using eq(1,2) True Some by (simp add: tmp_def)
        moreover have "\<exists>xs v' ys. inorder ?t = xs @ (it, v') # ys \<and> inorder (Some n) = xs @ ys"
          using split tmp(3) Some by blast
        ultimately show ?thesis using tmp(1,2,4) Some mem by simp
      qed
    next
      case False
      then obtain rc where rc: "r = Some rc" by auto
      define s where "s = minNode rc"
      obtain r' where r': "delMin r s = Inr r'" "caches r'" "balanced r'"
        "inorder r = (node_i s, node_v s) # inorder r'"
        "ht r' = ht r \<or> ht r' + 1 = ht r"
        using delMin_ok[of rc] c(2) b(2) unfolding rc s_def by blast
      obtain n' where n': "rebalance (fresh (node_i s) (node_v s) l r') = Inr n'"
        "caches (Some n')" "balanced (Some n')"
        "inorder (Some n') = inorder l @ (node_i s, node_v s) # inorder r'"
        "ht (Some n') = max (ht l) (ht r) + 1 \<or> ht (Some n') = max (ht l) (ht r)"
        using rebalance_shrunk_right[OF c(1) r'(2) b(1) r'(3) b(3) r'(5), of "node_i s" "node_v s"]
        by blast
      have "del it ?t removed = Inr (Some n', True)"
        using eq(1,2) False r'(1) n'(1) by (auto simp: rc s_def[symmetric] Let_def update_fresh)
      moreover have "\<exists>xs v' ys. inorder ?t = xs @ (it, v') # ys \<and> inorder (Some n') = xs @ ys"
        using n'(4) r'(4) split by auto
      moreover have "ht (Some n') = ht ?t \<or> ht (Some n') + 1 = ht ?t" using n'(5) by auto
      ultimately show ?thesis using n'(2,3) mem by simp
    qed
  qed
qed

lemma sorted_remove:
  "sorted (map entry_key (xs @ e # ys)) \<Longrightarrow> sorted (map entry_key (xs @ ys))"
  by (auto simp: sorted_append)

lemma strict_remove:
  assumes "sorted_wrt (<) (map entry_key (xs @ (k, v) # ys))"
  shows "sorted_wrt (<) (map entry_key (xs @ ys))"
    and "filter (\<lambda>e. fst e \<noteq> k) (xs @ (k, v) # ys) = xs @ ys"
proof -
  show "sorted_wrt (<) (map entry_key (xs @ ys))"
    using assms by (auto simp: sorted_wrt_append)
  have "\<forall>e \<in> set xs. entry_key e \<noteq> key k" "\<forall>e \<in> set ys. entry_key e \<noteq> key k"
    using assms by (auto simp: sorted_wrt_append entry_key_def)
  then have "filter (\<lambda>e. fst e \<noteq> k) xs = xs" "filter (\<lambda>e. fst e \<noteq> k) ys = ys"
    by (simp_all add: filter_ne_keep)
  then show "filter (\<lambda>e. fst e \<noteq> k) (xs @ (k, v) # ys) = xs @ ys" by simp
qed

lemma delete_ok_w:
  assumes "winvar self"
  shows "\<exists>self'. delete (AnInterval it) self = Inr (it \<in> set (keys (m_root self)), self')
           \<and> winvar self'
           \<and> (invar self \<longrightarrow> invar self'
                 \<and> inorder (m_root self') = filter (\<lambda>e. fst e \<noteq> it) (inorder (m_root self)))
           \<and> m_size self' = (if it \<in> set (keys (m_root self)) then m_size self - 1 else m_size self)
           \<and> (it \<notin> set (keys (m_root self)) \<longrightarrow> self' = self)"
proof -
  let ?t = "m_root self"
  have a: "caches ?t" "balanced ?t" "wbst ?t" "m_size self = int (nodes ?t)"
    using assms by (simp_all add: winvar_def)
  let ?p = "it \<in> set (keys ?t)"
  obtain t' where t': "del it ?t False = Inr (t', False \<or> ?p)"
     "caches t'" "balanced t'" "?p \<or> t' = ?t"
     "?p \<longrightarrow> (\<exists>xs v ys. inorder ?t = xs @ (it, v) # ys \<and> inorder t' = xs @ ys)"
    using del_w[OF a(1,2,3), of it False] by blast
  let ?self' = "self\<lparr>m_root := t', m_size := (if ?p then m_size self - 1 else m_size self)\<rparr>"
  have 1: "delete (AnInterval it) self = Inr (?p, ?self')"
    using t'(1) by (simp add: delete_def)
  show ?thesis
  proof (cases ?p)
    case False
    then have "?self' = self" using t'(4) by simp
    moreover have "filter (\<lambda>e. fst e \<noteq> it) (inorder ?t) = inorder ?t"
      using False by (intro filter_all) (auto simp: keys_def)
    ultimately show ?thesis using 1 assms False by (intro exI[of _ ?self']) simp
  next
    case True
    then obtain xs v ys where io: "inorder ?t = xs @ (it, v) # ys" "inorder t' = xs @ ys"
      using t'(5) by blast
    have n: "int (nodes t') = m_size self - 1"
      using io a(4) by (simp add: nodes_inorder)
    have w: "wbst t'"
      using a(3) unfolding wbst_inorder io by (rule sorted_remove)
    have 2: "winvar ?self'" using w t'(2,3) n True by (simp add: winvar_def)
    have 3: "invar self \<longrightarrow> invar ?self'
                 \<and> inorder (m_root ?self') = filter (\<lambda>e. fst e \<noteq> it) (inorder ?t)"
    proof
      assume "invar self"
      then have s: "sorted_wrt (<) (map entry_key (xs @ (it, v) # ys))"
        by (simp add: invar_def bst_inorder io)
      have "bst t'" unfolding bst_inorder io using s by (rule strict_remove(1))
      then have "invar ?self'" using t'(2,3) n True by (simp add: invar_def)
      then show "invar ?self' \<and> inorder (m_root ?self') = filter (\<lambda>e. fst e \<noteq> it) (inorder ?t)"
        using strict_remove(2)[OF s] io by simp
    qed
    show ?thesis using 1 2 3 True by (intro exI[of _ ?self']) simp
  qed
qed

lemma fromArray_winvar: "fromArray pairs mergeSame = Inr self \<Longrightarrow> winvar self"
  using fromArray_invariants[of pairs mergeSame] by (auto simp: winvar_def wbst_inorder)

lemma clear_clone_w: "winvar (clear self)" "winvar self \<Longrightarrow> winvar (clone self)"
  by (simp_all add: clear_def clone_def cpy_id winvar_def caches_def)

lemma reachable_winvar: "reachable self \<Longrightarrow> winvar self"
proof (induction rule: reachable.induct)
  case r_new
  show ?case by (simp add: winvar_def empty_map_def caches_def)
next
  case (r_set self it val self')
  then show ?case using set_ok_w[of self it val] by auto
next
  case (r_delete self it removed self')
  then show ?case using delete_ok_w[of self it] by auto
next
  case (r_clear self)
  show ?case by (rule clear_clone_w(1))
next
  case (r_clone self)
  show ?case using r_clone.IH by (rule clear_clone_w(2))
next
  case (r_fromArray pairs mergeSame self)
  then show ?case by (rule fromArray_winvar)
qed

section \<open>Claims about the bulk builder\<close>

lemma subnodes_inv:
  "n \<in> set (subnodes t) \<Longrightarrow> hcache t \<Longrightarrow> mcache t \<Longrightarrow> balanced t \<Longrightarrow>
   hcache (Some n) \<and> mcache (Some n) \<and> balanced (Some n)"
  by (induction t rule: inorder.induct) auto

text \<open>
  Claim C6. For a non-empty array of \<open>n\<close> entries the recursive-midpoint build returns a
  tree whose root height is \<open>\<lceil>log\<^sub>2 (n + 1)\<rceil>\<close>, whose height and subtree-max caches are
  right at every node and which is balanced, so that \<open>update\<close> and \<open>rebalance\<close> leave every
  node as it is; its entries are the array, and the map \<open>fromArray\<close> returns has the
  number of retained entries as its \<open>size\<close>.
\<close>

theorem build_height_and_caches:
  assumes "arr \<noteq> []"
  shows "(\<exists>n. build arr 0 (int (length arr) - 1) = Inr (Some n)
            \<and> int (node_h n) = \<lceil>log 2 (real (length arr) + 1)\<rceil>
            \<and> hcache (Some n) \<and> mcache (Some n) \<and> balanced (Some n)
            \<and> (\<forall>k \<in> set (subnodes (Some n)). update k = k \<and> rebalance k = Inr k)
            \<and> inorder (Some n) = arr \<and> nodes (Some n) = length arr)
       \<and> (\<exists>self. fromArray (Some arr) mergeSame = Inr self
            \<and> inorder (m_root self) = retained arr mergeSame
            \<and> m_size self = int (length (retained arr mergeSame))
            \<and> m_size self = int (nodes (m_root self))
            \<and> int (height (m_root self)) = \<lceil>log 2 (real (length (retained arr mergeSame)) + 1)\<rceil>)"
proof -
  obtain t where t: "build arr 0 (int (length arr) - 1) = Inr t"
    "inorder t = arr" "hcache t" "mcache t" "balanced t"
    "int (ht t) = \<lceil>log 2 (real (length arr) + 1)\<rceil>"
    using build_ok[of 0 "int (length arr) - 1" arr] by auto
  obtain n where n: "t = Some n" using t(2) assms by (cases t) auto
  have 1: "int (node_h n) = \<lceil>log 2 (real (length arr) + 1)\<rceil>"
    using t(3,6) hcache_height[of t] by (simp add: n)
  have 2: "\<forall>k \<in> set (subnodes (Some n)). update k = k \<and> rebalance k = Inr k"
    using subnodes_inv[of _ t] t(3,4,5) by (auto simp: n update_id rebalance_id)
  have 3: "nodes (Some n) = length arr" using t(2) by (simp add: n nodes_inorder)
  obtain self where self: "fromArray (Some arr) mergeSame = Inr self"
     "inorder (m_root self) = retained arr mergeSame"
     "hcache (m_root self)"
     "m_size self = int (length (retained arr mergeSame))"
     "int (ht (m_root self)) = \<lceil>log 2 (real (length (retained arr mergeSame)) + 1)\<rceil>"
    using fromArray_ok[of arr mergeSame] by blast
  have 4: "m_size self = int (nodes (m_root self))"
    using self(2,4) by (simp add: nodes_inorder)
  have 5: "int (height (m_root self)) = \<lceil>log 2 (real (length (retained arr mergeSame)) + 1)\<rceil>"
    using self(3,5) by (simp add: hcache_height)
  show ?thesis
    using t(1,2,3,4,5) 1 2 3 self(1,2,4) 4 5 unfolding n by blast
qed

theorem build_height_and_caches_witness:
  "[(Interval 0 5, 1::nat), (Interval 4 6, 3), (Interval 6 9, 2), (Interval 7 8, 4)] \<noteq> []
   \<and> build [(Interval 0 5, 1::nat), (Interval 4 6, 3), (Interval 6 9, 2), (Interval 7 8, 4)] 0 3
       = Inr (Some (Node (Interval 4 6) 3 9 3
               (Some (Node (Interval 0 5) 1 5 1 None None))
               (Some (Node (Interval 6 9) 2 9 2 None
                  (Some (Node (Interval 7 8) 4 8 1 None None))))))
   \<and> (3::int) = \<lceil>log 2 (real (length [(Interval 0 5, 1::nat), (Interval 4 6, 3), (Interval 6 9, 2), (Interval 7 8, 4)]) + 1)\<rceil>"
  using build_height_and_caches [of "[(Interval 0 5, 1::nat), (Interval 4 6, 3), (Interval 6 9, 2), (Interval 7 8, 4)]" False]
  by (auto simp: build.simps IntervalMapNode_def)

text \<open>
  Claim C5. With \<open>mergeSame\<close> the pairs are sorted ascending by \<open>(a, b)\<close> and then by
  value, a permutation of the input; the sweep of the code is the sweep of the
  specification (\<open>spec_coalesce\<close>), which merges an entry into the retained entry just
  before it exactly when the values are equal and its start is at most the retained end,
  the end becoming the larger one. Hence an array that is a sequence of touching runs,
  each separated from the run just before it, becomes one entry per run, from the run's
  least start to its greatest end, and nothing merges across a run in between. Without
  \<open>mergeSame\<close> the tree holds the input pairs, all of them, sorted stably by \<open>(a, b)\<close>.
\<close>

theorem fromArray_sort_and_merge:
  "array_sort (cmp_entries True) ps = sort_key sort_key3 ps
   \<and> sorted (map sort_key3 (sort_key sort_key3 ps))
   \<and> mset (sort_key sort_key3 ps) = mset ps
   \<and> sweep xs [] = spec_coalesce xs
   \<and> (\<exists>self. fromArray (Some ps) True = Inr self
         \<and> inorder (m_root self) = spec_coalesce (sort_key sort_key3 ps))
   \<and> ((\<forall>run \<in> set runs. touching_run run) \<and> separated runs
        \<longrightarrow> sweep (concat runs) [] = map span_of runs)
   \<and> (\<exists>self. fromArray (Some ps) False = Inr self
         \<and> inorder (m_root self) = sort_key entry_key ps
         \<and> mset (inorder (m_root self)) = mset ps
         \<and> m_size self = int (length ps))"
proof -
  have 1: "array_sort (cmp_entries True) ps = sort_key sort_key3 ps"
    by (rule array_sort_sort_key) (rule cmp_entries_True)
  have 2: "sorted (map sort_key3 (sort_key sort_key3 ps))" by (rule sorted_sort_key)
  have 3: "mset (sort_key sort_key3 ps) = mset ps" by simp
  have 4: "sweep xs [] = spec_coalesce xs" by (rule sweep_spec_coalesce)
  have 5: "\<exists>self. fromArray (Some ps) True = Inr self
         \<and> inorder (m_root self) = spec_coalesce (sort_key sort_key3 ps)"
    using fromArray_ok[of ps True] by (auto simp: retained_def)
  have 6: "(\<forall>run \<in> set runs. touching_run run) \<and> separated runs
        \<longrightarrow> sweep (concat runs) [] = map span_of runs"
    by (simp add: sweep_spec_coalesce coalesce_runs)
  have 7: "\<exists>self. fromArray (Some ps) False = Inr self
         \<and> inorder (m_root self) = sort_key entry_key ps
         \<and> mset (inorder (m_root self)) = mset ps
         \<and> m_size self = int (length ps)"
    using fromArray_ok[of ps False] by (auto simp: retained_def)
  show ?thesis using 1 2 3 4 5 6 7 by blast
qed

theorem fromArray_sort_and_merge_witness:
  "touching_run [(Interval 0 2, 1::nat), (Interval 2 5, 1)]
   \<and> touching_run [(Interval 4 6, 3::nat)]
   \<and> touching_run [(Interval 6 7, 2::nat), (Interval 6 9, 2)]
   \<and> separated [[(Interval 0 2, 1::nat), (Interval 2 5, 1)], [(Interval 4 6, 3)],
                 [(Interval 6 7, 2), (Interval 6 9, 2)]]
   \<and> sweep [(Interval 0 2, 1::nat), (Interval 2 5, 1), (Interval 4 6, 3),
             (Interval 6 7, 2), (Interval 6 9, 2)] []
       = [(Interval 0 5, 1), (Interval 4 6, 3), (Interval 6 9, 2)]"
  using fromArray_sort_and_merge [of "[]" "[]"
     "[[(Interval 0 2, 1::nat), (Interval 2 5, 1)], [(Interval 4 6, 3)],
       [(Interval 6 7, 2), (Interval 6 9, 2)]]"]
  by (simp add: touching_run_def span_of_def clone_iv_def Let_def)

section \<open>Overlap queries\<close>

lemma example_invar: "invar example_map"
  by (simp add: invar_def example_map_def keys_def compareTo_def caches_def)

text \<open>
  Claim C2. On a tree in BST order whose subtree-max caches are right, \<open>hasOverlap(q)\<close>
  is true exactly when \<open>getOverlapping(q)\<close> is non-empty, and exactly when some stored
  interval \<open>[a,b]\<close> has \<open>a \<le> qb\<close> and \<open>qa \<le> b\<close>: the single descent decides existence.
\<close>

theorem hasOverlap_iff_getOverlapping:
  assumes "bst (m_root self)" and "mcache (m_root self)"
  shows "\<exists>found out.
           hasOverlap (AnInterval q) self = Inr found
         \<and> getOverlapping (AnInterval q) self = Inr out
         \<and> (found \<longleftrightarrow> out \<noteq> [])
         \<and> (found \<longleftrightarrow>
              (\<exists>e \<in> set (inorder (m_root self)). iv_a (fst e) \<le> iv_b q \<and> iv_a q \<le> iv_b (fst e)))"
  using assms
  by (simp add: hasOverlap_def getOverlapping_def hasOverlap_loop_iff dfs_filter
        filter_empty_conv overlaps_def)

theorem hasOverlap_iff_getOverlapping_witness:
  "bst (m_root example_map) \<and> mcache (m_root example_map)
   \<and> hasOverlap (AnInterval (Interval 25 26)) example_map = Inr True
   \<and> getOverlapping (AnInterval (Interval 25 26)) example_map = Inr [(Interval 25 30, 5)]
   \<and> hasOverlap (AnInterval (Interval 40 50)) example_map = Inr False
   \<and> getOverlapping (AnInterval (Interval 40 50)) example_map = Inr []"
  using hasOverlap_iff_getOverlapping [of example_map "Interval 25 26"]
        hasOverlap_iff_getOverlapping [of example_map "Interval 40 50"]
  by (simp add: example_map_def keys_def compareTo_def hasOverlap_def getOverlapping_def)

text \<open>
  Claim C4. On such a tree \<open>getOverlapping(q)\<close> returns exactly the stored entries that
  pass the closed overlap test, in ascending \<open>(a,b)\<close> order: the in-order sequence
  filtered by the test, so neither pruning rule loses an entry.
\<close>

theorem getOverlapping_exact:
  assumes "bst (m_root self)" and "mcache (m_root self)"
  shows "getOverlapping (AnInterval q) self =
           Inr (filter (overlaps (iv_a q) (iv_b q)) (inorder (m_root self)))
       \<and> sorted_wrt (\<lambda>x y. compareTo (fst x) (fst y) < 0)
           (filter (overlaps (iv_a q) (iv_b q)) (inorder (m_root self)))"
proof -
  have "sorted_wrt (<) (map key (keys (m_root self)))"
    using assms(1) by (simp add: bst_sorted)
  then have "sorted_wrt (\<lambda>x y. compareTo (fst x) (fst y) < 0) (inorder (m_root self))"
    by (simp add: keys_def sorted_wrt_map compareTo_neg)
  then have "sorted_wrt (\<lambda>x y. compareTo (fst x) (fst y) < 0)
           (filter (overlaps (iv_a q) (iv_b q)) (inorder (m_root self)))"
    by (rule sorted_wrt_filter)
  then show ?thesis
    using assms by (simp add: getOverlapping_def dfs_filter)
qed

theorem getOverlapping_exact_witness:
  "bst (m_root example_map) \<and> mcache (m_root example_map)
   \<and> getOverlapping (AnInterval (Interval 8 12)) example_map
       = Inr [(Interval 5 8, 2), (Interval 10 20, 1), (Interval 12 18, 4)]"
  using getOverlapping_exact [of example_map "Interval 8 12"]
  by (simp add: example_map_def keys_def compareTo_def overlaps_def)

text \<open>
  Claim C3, at a failing input. After \<open>set([5,6], 1)\<close> and \<open>set([0,10], 2)\<close> on an empty
  map all four invariants hold and \<open>[0,10]\<close> contains \<open>8\<close>; \<open>getAt(8, true)\<close> reports
  it, while the single descent of \<open>getAt(8)\<close> goes right at \<open>[5,6]\<close> and returns
  \<open>null\<close>.
\<close>

theorem getAt_misses_containing_interval:
  "set_iv (AnInterval (Interval 5 6)) (1::nat) empty_map
     = Inr \<lparr>m_root = Some (Node (Interval 5 6) 1 6 1 None None), m_size = 1\<rparr>
   \<and> set_iv (AnInterval (Interval 0 10)) 2
        \<lparr>m_root = Some (Node (Interval 5 6) 1 6 1 None None), m_size = 1\<rparr>
     = Inr \<lparr>m_root = Some (Node (Interval 5 6) 1 10 2
                          (Some (Node (Interval 0 10) 2 10 1 None None)) None),
            m_size = 2\<rparr>
   \<and> invar \<lparr>m_root = Some (Node (Interval 5 6) (1::nat) 10 2
                          (Some (Node (Interval 0 10) 2 10 1 None None)) None),
            m_size = 2\<rparr>
   \<and> getAt 8 False \<lparr>m_root = Some (Node (Interval 5 6) (1::nat) 10 2
                          (Some (Node (Interval 0 10) 2 10 1 None None)) None),
            m_size = 2\<rparr> = One None
   \<and> getAt 8 True \<lparr>m_root = Some (Node (Interval 5 6) (1::nat) 10 2
                          (Some (Node (Interval 0 10) 2 10 1 None None)) None),
            m_size = 2\<rparr> = All [(Interval 0 10, 2)]"
  by (simp add: set_iv_def empty_map_def IntervalMapNode_def compareTo_def invar_def
        keys_def caches_def getAt_def rebalance.simps update.simps)

section \<open>Argument guards and empty input\<close>

text \<open>
  Claim C9. Each of \<open>set\<close>, \<open>get\<close>, \<open>delete\<close>, \<open>hasOverlap\<close>, \<open>getOverlapping\<close>
  answers a non-interval argument with \<open>InvalidArgument\<close> whatever the map is: the tree is
  not consulted and no new map is produced. A key that is not stored gives \<open>null\<close> from
  \<open>get\<close> and \<open>false\<close> from \<open>delete\<close>, and a query that no stored interval overlaps gives
  \<open>false\<close> and the empty array; none of them is an error.
\<close>

theorem invalid_argument_guards:
  "set_iv NotAnInterval val self = Inl InvalidArgument
   \<and> get NotAnInterval self = Inl InvalidArgument
   \<and> delete NotAnInterval self = Inl InvalidArgument
   \<and> hasOverlap NotAnInterval self = Inl InvalidArgument
   \<and> getOverlapping NotAnInterval self = Inl InvalidArgument
   \<and> (it \<notin> set (keys (m_root self)) \<longrightarrow>
        get (AnInterval it) self = Inr None
        \<and> (\<exists>self'. delete (AnInterval it) self = Inr (False, self')))
   \<and> ((\<forall>e \<in> set (inorder (m_root self)). \<not> overlaps (iv_a q) (iv_b q) e) \<longrightarrow>
        hasOverlap (AnInterval q) self = Inr False
        \<and> getOverlapping (AnInterval q) self = Inr [])"
proof -
  have g: "get_loop qa qb t = None" if "Interval qa qb \<notin> set (keys t)" for qa qb and t :: "'a tree"
    using that
  proof (induction t rule: inorder.induct)
    case (2 i v m h l r)
    then show ?case by (cases i) (auto simp: keys_def)
  qed simp
  have d: "\<exists>self'. delete (AnInterval it) self = Inr (False, self')"
    if "it \<notin> set (keys (m_root self))"
  proof -
    obtain t' rm where "del it (m_root self) False = Inr (t', rm)"
      "it \<notin> set (keys (m_root self)) \<longrightarrow> rm = False"
      using del_total by blast
    then show ?thesis using that by (simp add: delete_def)
  qed
  have h: "\<not> hasOverlap_loop qa qb t" if "\<forall>e \<in> set (inorder t). \<not> overlaps qa qb e"
    for qa qb and t :: "'a tree"
    using that
  proof (induction t rule: inorder.induct)
    case (2 i v m h l r)
    then show ?case by (cases l) (auto simp: overlaps_def)
  qed simp
  have o: "dfs qa qb t out = out" if "\<forall>e \<in> set (inorder t). \<not> overlaps qa qb e"
    for qa qb out and t :: "'a tree"
    using that
  proof (induction t arbitrary: out rule: inorder.induct)
    case (2 i v m h l r)
    then show ?case by (cases l; cases r) (auto simp: overlaps_def)
  qed simp
  show ?thesis
    using g[of "iv_a it" "iv_b it" "m_root self"] d h o
    by (simp add: set_iv_def get_def delete_def hasOverlap_def getOverlapping_def)
qed

theorem invalid_argument_guards_witness:
  "Interval 0 1 \<notin> set (keys (m_root example_map))
   \<and> filter (overlaps 40 50) (inorder (m_root example_map)) = []
   \<and> get (AnInterval (Interval 0 1)) example_map = Inr None
   \<and> delete (AnInterval (Interval 0 1)) example_map = Inr (False, example_map)
   \<and> hasOverlap (AnInterval (Interval 40 50)) example_map = Inr False
   \<and> getOverlapping (AnInterval (Interval 40 50)) example_map = Inr []
   \<and> set_iv NotAnInterval 7 example_map = Inl InvalidArgument"
  using invalid_argument_guards [of 7 example_map "Interval 0 1" "Interval 40 50"]
  by (simp add: example_map_def keys_def overlaps_def delete_def compareTo_def
        rebalance.simps update.simps)

text \<open>
  Claim C10. \<open>fromArray\<close> on \<open>null\<close>/\<open>undefined\<close> or on the empty array returns the
  fresh empty map, without an error and whatever \<open>mergeSame\<close> is.
\<close>

theorem fromArray_empty_input:
  "fromArray None mergeSame = Inr \<lparr>m_root = None, m_size = 0\<rparr>
   \<and> fromArray (Some []) mergeSame = Inr \<lparr>m_root = None, m_size = 0\<rparr>"
  by (simp add: fromArray_def empty_map_def)

section \<open>The invariants after every operation\<close>

text \<open>
  Claim C1, as stated, fails for \<open>fromArray\<close>: two input pairs with the same interval are
  both kept, one becomes the right child of the other, and a right descendant that
  compares equal breaks the strict order.
\<close>

theorem fromArray_duplicates_break_order:
  "fromArray (Some [(Interval 1 2, 0::nat), (Interval 1 2, 1)]) False
     = Inr \<lparr>m_root = Some (Node (Interval 1 2) 0 2 2 None
                            (Some (Node (Interval 1 2) 1 2 1 None None))),
            m_size = 2\<rparr>
   \<and> \<not> bst (Some (Node (Interval 1 2) (0::nat) 2 2 None
                            (Some (Node (Interval 1 2) 1 2 1 None None))))
   \<and> \<not> invar \<lparr>m_root = Some (Node (Interval 1 2) (0::nat) 2 2 None
                            (Some (Node (Interval 1 2) 1 2 1 None None))),
            m_size = 2\<rparr>"
  by (simp add: fromArray_def array_sort_def cmp_entries_def build.simps IntervalMapNode_def
        invar_def keys_def compareTo_def)

text \<open>
  Claim C1, amended. The empty map satisfies the four invariants, and \<open>set\<close>, \<open>delete\<close>,
  \<open>clear\<close> and \<open>clone\<close> return a map that satisfies them when the map they were called on
  does. With the order invariant in its non-strict form (left descendants less or equal,
  right descendants greater or equal) the four invariants hold after every operation:
  \<open>set\<close>, \<open>delete\<close>, \<open>clear\<close> and \<open>clone\<close> preserve them, \<open>fromArray\<close> always establishes
  them, and so every map that any sequence of operations produces satisfies them. After
  \<open>fromArray\<close> the strict order, and with it the four invariants as stated, holds exactly
  when no two entries of the tree have the same interval, in particular when the
  intervals of the input are pairwise distinct.
\<close>

theorem invariants_preserved:
  "invar (empty_map :: 'v IntervalMap)
   \<and> (invar (self :: 'v IntervalMap) \<longrightarrow>
        (\<exists>self'. set_iv (AnInterval it) val self = Inr self' \<and> invar self')
      \<and> (\<exists>removed self'. delete (AnInterval it) self = Inr (removed, self') \<and> invar self')
      \<and> invar (clear self)
      \<and> invar (clone self))
   \<and> (winvar self \<longrightarrow>
        (\<exists>self'. set_iv (AnInterval it) val self = Inr self' \<and> winvar self')
      \<and> (\<exists>removed self'. delete (AnInterval it) self = Inr (removed, self') \<and> winvar self')
      \<and> winvar (clear self)
      \<and> winvar (clone self))
   \<and> (\<exists>built. fromArray (pairs :: ('w::linorder) entry list option) mergeSame = Inr built
        \<and> winvar built
        \<and> (invar built \<longleftrightarrow> distinct (keys (m_root built)))
        \<and> ((case pairs of None \<Rightarrow> True | Some ps \<Rightarrow> distinct (map fst ps)) \<longrightarrow> invar built))
   \<and> (reachable (other :: 'w IntervalMap) \<longrightarrow> winvar other)"
proof -
  have 1: "invar (empty_map :: 'v IntervalMap)"
    by (simp add: invar_def empty_map_def caches_def)
  have 2: "\<exists>self'. set_iv (AnInterval it) val self = Inr self' \<and> invar self'" if "invar self"
    using set_ok_w[OF invar_winvar[OF that], of it val] that by blast
  have 3: "\<exists>removed self'. delete (AnInterval it) self = Inr (removed, self') \<and> invar self'"
    if "invar self"
    using delete_ok_w[OF invar_winvar[OF that], of it] that by blast
  have 4: "invar (clear self)" by (simp add: clear_def invar_def caches_def)
  have 5: "invar (clone self)" if "invar self"
    using that by (simp add: clone_def cpy_id invar_def)
  have 6: "\<exists>self'. set_iv (AnInterval it) val self = Inr self' \<and> winvar self'" if "winvar self"
    using set_ok_w[OF that, of it val] by blast
  have 7: "\<exists>removed self'. delete (AnInterval it) self = Inr (removed, self') \<and> winvar self'"
    if "winvar self"
    using delete_ok_w[OF that, of it] by blast
  have 8: "\<exists>built. fromArray pairs mergeSame = Inr built
        \<and> winvar built
        \<and> (invar built \<longleftrightarrow> distinct (keys (m_root built)))
        \<and> ((case pairs of None \<Rightarrow> True | Some ps \<Rightarrow> distinct (map fst ps)) \<longrightarrow> invar built)"
    using fromArray_invariants[of pairs mergeSame] fromArray_winvar[of pairs mergeSame] by blast
  show ?thesis
    using 1 2 3 4 5 6 7 8 clear_clone_w[of self] reachable_winvar[of other] by blast
qed

theorem invariants_preserved_witness:
  "invar example_map
   \<and> set_iv (AnInterval (Interval 1 1)) 6 example_map
       = Inr \<lparr>m_root = Some (Node (Interval 5 8) 2 30 3
                  (Some (Node (Interval 2 3) 3 3 2
                     (Some (Node (Interval 1 1) 6 1 1 None None)) None))
                  (Some (Node (Interval 12 18) 4 30 2
                     (Some (Node (Interval 10 20) 1 20 1 None None))
                     (Some (Node (Interval 25 30) 5 30 1 None None))))),
               m_size = 6\<rparr>
   \<and> invar \<lparr>m_root = Some (Node (Interval 5 8) 2 30 3
                  (Some (Node (Interval 2 3) 3 3 2
                     (Some (Node (Interval 1 1) (6::nat) 1 1 None None)) None))
                  (Some (Node (Interval 12 18) 4 30 2
                     (Some (Node (Interval 10 20) 1 20 1 None None))
                     (Some (Node (Interval 25 30) 5 30 1 None None))))),
               m_size = 6\<rparr>
   \<and> distinct (map fst [(Interval 0 5, 1::nat), (Interval 3 6, 2), (Interval 10 12, 3)])
   \<and> fromArray (Some [(Interval 0 5, 1::nat), (Interval 3 6, 2), (Interval 10 12, 3)]) False
       = Inr \<lparr>m_root = Some (Node (Interval 3 6) 2 12 2
                  (Some (Node (Interval 0 5) 1 5 1 None None))
                  (Some (Node (Interval 10 12) 3 12 1 None None))),
               m_size = 3\<rparr>
   \<and> invar \<lparr>m_root = Some (Node (Interval 3 6) 2 12 2
                  (Some (Node (Interval 0 5) (1::nat) 5 1 None None))
                  (Some (Node (Interval 10 12) 3 12 1 None None))),
               m_size = 3\<rparr>
   \<and> reachable \<lparr>m_root = Some (Node (Interval 1 2) (0::nat) 2 2 None
                            (Some (Node (Interval 1 2) 1 2 1 None None))),
                 m_size = 2\<rparr>
   \<and> winvar \<lparr>m_root = Some (Node (Interval 1 2) (0::nat) 2 2 None
                            (Some (Node (Interval 1 2) 1 2 1 None None))),
              m_size = 2\<rparr>"
proof -
  let ?ps = "[(Interval 0 5, 1::nat), (Interval 3 6, 2), (Interval 10 12, 3)]"
  let ?dup = "\<lparr>m_root = Some (Node (Interval 1 2) (0::nat) 2 2 None
                            (Some (Node (Interval 1 2) 1 2 1 None None))),
              m_size = 2\<rparr>"
  note T = invariants_preserved [of example_map "Interval 1 1" 6 "Some ?ps" False ?dup]
  have a: "invar example_map" by (rule example_invar)
  have b: "set_iv (AnInterval (Interval 1 1)) 6 example_map
       = Inr \<lparr>m_root = Some (Node (Interval 5 8) 2 30 3
                  (Some (Node (Interval 2 3) 3 3 2
                     (Some (Node (Interval 1 1) 6 1 1 None None)) None))
                  (Some (Node (Interval 12 18) 4 30 2
                     (Some (Node (Interval 10 20) 1 20 1 None None))
                     (Some (Node (Interval 25 30) 5 30 1 None None))))),
               m_size = 6\<rparr>"
    by (simp add: example_map_def set_iv_def IntervalMapNode_def compareTo_def
          rebalance.simps update.simps)
  have c: "distinct (map fst ?ps)" by simp
  have d: "fromArray (Some ?ps) False
       = Inr \<lparr>m_root = Some (Node (Interval 3 6) 2 12 2
                  (Some (Node (Interval 0 5) 1 5 1 None None))
                  (Some (Node (Interval 10 12) 3 12 1 None None))),
               m_size = 3\<rparr>"
    by (simp add: fromArray_def array_sort_def cmp_entries_def build.simps IntervalMapNode_def)
  from T a have "\<exists>self'. set_iv (AnInterval (Interval 1 1)) 6 example_map = Inr self' \<and> invar self'"
    by blast
  then have e: "invar \<lparr>m_root = Some (Node (Interval 5 8) 2 30 3
                  (Some (Node (Interval 2 3) 3 3 2
                     (Some (Node (Interval 1 1) (6::nat) 1 1 None None)) None))
                  (Some (Node (Interval 12 18) 4 30 2
                     (Some (Node (Interval 10 20) 1 20 1 None None))
                     (Some (Node (Interval 25 30) 5 30 1 None None))))),
               m_size = 6\<rparr>"
    unfolding b by simp
  from T c have "\<exists>built. fromArray (Some ?ps) False = Inr built \<and> invar built"
    by auto
  then have f: "invar \<lparr>m_root = Some (Node (Interval 3 6) 2 12 2
                  (Some (Node (Interval 0 5) (1::nat) 5 1 None None))
                  (Some (Node (Interval 10 12) 3 12 1 None None))),
               m_size = 3\<rparr>"
    unfolding d by simp
  have "fromArray (Some [(Interval 1 2, 0::nat), (Interval 1 2, 1)]) False = Inr ?dup"
    by (simp add: fromArray_def array_sort_def cmp_entries_def build.simps IntervalMapNode_def)
  then have g: "reachable ?dup" by (rule r_fromArray)
  from T g have h: "winvar ?dup" by blast
  show ?thesis using a b c d e f g h by (intro conjI)
qed

section \<open>Deleting and re-reading keys\<close>

text \<open>
  Claim C7. On a map that satisfies the invariants, \<open>delete\<close> of an interval that is not
  stored returns \<open>false\<close> and the very same map, tree and \<open>size\<close>; \<open>delete\<close> of a stored
  interval returns \<open>true\<close>, the in-order sequence loses exactly the entry with that
  interval, \<open>size\<close> drops by one and the invariants still hold. When the interval sits at
  the root with at most one child, the new root is that child (or \<open>null\<close>); with two
  children the root takes the interval and value of the leftmost node of the right
  subtree, which \<open>delMin\<close> removes from there, before rebalancing.
\<close>

theorem delete_absent_and_present:
  assumes "invar self"
  shows "(it \<notin> set (keys (m_root self)) \<longrightarrow> delete (AnInterval it) self = Inr (False, self))
       \<and> (it \<in> set (keys (m_root self)) \<longrightarrow>
            (\<exists>self'. delete (AnInterval it) self = Inr (True, self')
               \<and> inorder (m_root self') = filter (\<lambda>e. fst e \<noteq> it) (inorder (m_root self))
               \<and> it \<notin> set (keys (m_root self'))
               \<and> m_size self' = m_size self - 1
               \<and> invar self'))
       \<and> (\<forall>v m h c. m_root self = Some (Node it v m h c None) \<or> m_root self = Some (Node it v m h None c)
            \<longrightarrow> (\<exists>self'. delete (AnInterval it) self = Inr (True, self') \<and> m_root self' = c))
       \<and> (\<forall>v m h lc rc. m_root self = Some (Node it v m h (Some lc) (Some rc))
            \<longrightarrow> (\<exists>self' r' n'. delete (AnInterval it) self = Inr (True, self')
                  \<and> delMin (Some rc) (minNode rc) = Inr r'
                  \<and> inorder (Some rc) = (node_i (minNode rc), node_v (minNode rc)) # inorder r'
                  \<and> rebalance (update (Node (node_i (minNode rc)) (node_v (minNode rc)) m h (Some lc) r'))
                       = Inr n'
                  \<and> m_root self' = Some n'))"
proof -
  obtain self' where d: "delete (AnInterval it) self = Inr (it \<in> set (keys (m_root self)), self')"
     "invar self'"
     "inorder (m_root self') = filter (\<lambda>e. fst e \<noteq> it) (inorder (m_root self))"
     "m_size self' = (if it \<in> set (keys (m_root self)) then m_size self - 1 else m_size self)"
     "it \<notin> set (keys (m_root self)) \<longrightarrow> self' = self"
    using delete_ok_w[OF invar_winvar[OF assms], of it] assms by blast
  have a: "caches (m_root self)" "balanced (m_root self)"
    using assms by (simp_all add: invar_def)
  have 1: "it \<notin> set (keys (m_root self)) \<longrightarrow> delete (AnInterval it) self = Inr (False, self)"
    using d(1,5) by auto
  have "it \<notin> set (keys (m_root self'))" unfolding keys_def d(3) by auto
  then have 2: "it \<in> set (keys (m_root self)) \<longrightarrow>
            (\<exists>self'. delete (AnInterval it) self = Inr (True, self')
               \<and> inorder (m_root self') = filter (\<lambda>e. fst e \<noteq> it) (inorder (m_root self))
               \<and> it \<notin> set (keys (m_root self'))
               \<and> m_size self' = m_size self - 1
               \<and> invar self')"
    using d by auto
  have 3: "\<exists>self'. delete (AnInterval it) self = Inr (True, self') \<and> m_root self' = c"
    if "m_root self = Some (Node it v m h c None) \<or> m_root self = Some (Node it v m h None c)"
    for v m h c
  proof (cases c)
    case None
    then show ?thesis using that by (auto simp: delete_def compareTo_def)
  next
    case (Some n)
    have "caches c" "balanced c" using a that by (auto simp: caches_def)
    then have "rebalance (update n) = Inr n"
      using update_id[of n] rebalance_id[of n] by (simp add: Some caches_def)
    then show ?thesis using that Some by (auto simp: delete_def compareTo_def)
  qed
  have 4: "\<exists>self' r' n'. delete (AnInterval it) self = Inr (True, self')
                  \<and> delMin (Some rc) (minNode rc) = Inr r'
                  \<and> inorder (Some rc) = (node_i (minNode rc), node_v (minNode rc)) # inorder r'
                  \<and> rebalance (update (Node (node_i (minNode rc)) (node_v (minNode rc)) m h (Some lc) r'))
                       = Inr n'
                  \<and> m_root self' = Some n'"
    if r: "m_root self = Some (Node it v m h (Some lc) (Some rc))" for v m h lc rc
  proof -
    have "caches (Some rc)" "balanced (Some rc)" using a r by (auto simp: caches_def)
    then obtain r' where r': "delMin (Some rc) (minNode rc) = Inr r'"
      "inorder (Some rc) = (node_i (minNode rc), node_v (minNode rc)) # inorder r'"
      using delMin_ok[of rc] by blast
    obtain n' where n': "rebalance (update (Node (node_i (minNode rc)) (node_v (minNode rc)) m h (Some lc) r')) = Inr n'"
      by (rule rebalance_cases)
    show ?thesis using r r' n' by (simp add: delete_def compareTo_def Let_def)
  qed
  show ?thesis using 1 2 3 4 by blast
qed

theorem delete_absent_and_present_witness:
  "invar example_map
   \<and> Interval 0 1 \<notin> set (keys (m_root example_map))
   \<and> delete (AnInterval (Interval 0 1)) example_map = Inr (False, example_map)
   \<and> Interval 5 8 \<in> set (keys (m_root example_map))
   \<and> delete (AnInterval (Interval 5 8)) example_map
       = Inr (True, \<lparr>m_root = Some (Node (Interval 10 20) 1 30 3
                  (Some (Node (Interval 2 3) 3 3 1 None None))
                  (Some (Node (Interval 12 18) 4 30 2 None
                     (Some (Node (Interval 25 30) 5 30 1 None None))))),
               m_size = 4\<rparr>)"
proof -
  note T1 = delete_absent_and_present [OF example_invar, of "Interval 0 1"]
  have a: "Interval 0 1 \<notin> set (keys (m_root example_map))"
    and b: "Interval 5 8 \<in> set (keys (m_root example_map))"
    by (simp_all add: example_map_def keys_def)
  from T1 a have c: "delete (AnInterval (Interval 0 1)) example_map = Inr (False, example_map)"
    by blast
  have d: "delete (AnInterval (Interval 5 8)) example_map
       = Inr (True, \<lparr>m_root = Some (Node (Interval 10 20) 1 30 3
                  (Some (Node (Interval 2 3) 3 3 1 None None))
                  (Some (Node (Interval 12 18) 4 30 2 None
                     (Some (Node (Interval 25 30) 5 30 1 None None))))),
               m_size = 4\<rparr>)"
    by (simp add: example_map_def delete_def compareTo_def rebalance.simps update.simps)
  show ?thesis using example_invar a b c d by (intro conjI)
qed

text \<open>
  Claim C8. On every map that satisfies the invariants, the order in its non-strict form
  being enough (so on every map the operations can produce, \<open>reachable_winvar\<close>),
  \<open>get(k)\<close> right after \<open>set(k, v)\<close> returns \<open>v\<close>: the descent on \<open>a\<close>, then \<open>b\<close>, finds
  the node that the \<open>compareTo\<close> descent wrote. When \<open>k\<close> was already stored, \<open>size\<close> is
  unchanged and the tree is the old tree with the value overwritten at the node where the
  descent met \<open>k\<close>, nothing else changed; otherwise \<open>size\<close> grows by one.
\<close>

theorem get_after_set:
  assumes "winvar self"
  shows "\<exists>self'. set_iv (AnInterval k) v self = Inr self'
           \<and> get (AnInterval k) self' = Inr (Some v)
           \<and> (k \<in> set (keys (m_root self)) \<longrightarrow>
                 m_size self' = m_size self \<and> m_root self' = put_first k v (m_root self))
           \<and> (k \<notin> set (keys (m_root self)) \<longrightarrow> m_size self' = m_size self + 1)"
  using set_ok_w[OF assms, of k v] by blast

theorem get_after_set_witness:
  "winvar example_map
   \<and> Interval 12 18 \<in> set (keys (m_root example_map))
   \<and> set_iv (AnInterval (Interval 12 18)) 9 example_map
       = Inr \<lparr>m_root = Some (Node (Interval 5 8) 2 30 3
                  (Some (Node (Interval 2 3) 3 3 1 None None))
                  (Some (Node (Interval 12 18) 9 30 2
                     (Some (Node (Interval 10 20) 1 20 1 None None))
                     (Some (Node (Interval 25 30) 5 30 1 None None))))),
               m_size = 5\<rparr>
   \<and> get (AnInterval (Interval 12 18))
        \<lparr>m_root = Some (Node (Interval 5 8) 2 30 3
                  (Some (Node (Interval 2 3) 3 3 1 None None))
                  (Some (Node (Interval 12 18) 9 30 2
                     (Some (Node (Interval 10 20) 1 20 1 None None))
                     (Some (Node (Interval 25 30) 5 30 1 None None))))),
               m_size = 5\<rparr> = Inr (Some (9::nat))
   \<and> winvar \<lparr>m_root = Some (Node (Interval 1 2) (0::nat) 2 2 None
                            (Some (Node (Interval 1 2) 1 2 1 None None))),
              m_size = 2\<rparr>
   \<and> set_iv (AnInterval (Interval 1 2)) 9
        \<lparr>m_root = Some (Node (Interval 1 2) (0::nat) 2 2 None
                            (Some (Node (Interval 1 2) 1 2 1 None None))),
              m_size = 2\<rparr>
       = Inr \<lparr>m_root = Some (Node (Interval 1 2) 9 2 2 None
                            (Some (Node (Interval 1 2) 1 2 1 None None))),
              m_size = 2\<rparr>
   \<and> get (AnInterval (Interval 1 2))
        \<lparr>m_root = Some (Node (Interval 1 2) (9::nat) 2 2 None
                            (Some (Node (Interval 1 2) 1 2 1 None None))),
              m_size = 2\<rparr> = Inr (Some 9)"
proof -
  let ?dup = "\<lparr>m_root = Some (Node (Interval 1 2) (0::nat) 2 2 None
                            (Some (Node (Interval 1 2) 1 2 1 None None))),
              m_size = 2\<rparr>"
  have w: "winvar example_map" using example_invar by (rule invar_winvar)
  have w2: "winvar ?dup" by (simp add: winvar_def keys_def compareTo_def caches_def)
  note T = get_after_set [OF w, of "Interval 12 18" 9]
  note T2 = get_after_set [OF w2, of "Interval 1 2" 9]
  have a: "Interval 12 18 \<in> set (keys (m_root example_map))"
    by (simp add: example_map_def keys_def)
  have b: "set_iv (AnInterval (Interval 12 18)) 9 example_map
       = Inr \<lparr>m_root = Some (Node (Interval 5 8) 2 30 3
                  (Some (Node (Interval 2 3) 3 3 1 None None))
                  (Some (Node (Interval 12 18) 9 30 2
                     (Some (Node (Interval 10 20) 1 20 1 None None))
                     (Some (Node (Interval 25 30) 5 30 1 None None))))),
               m_size = 5\<rparr>"
    by (simp add: example_map_def set_iv_def compareTo_def rebalance.simps update.simps)
  from T have "\<exists>self'. set_iv (AnInterval (Interval 12 18)) 9 example_map = Inr self'
           \<and> get (AnInterval (Interval 12 18)) self' = Inr (Some 9)" by blast
  then have c: "get (AnInterval (Interval 12 18))
        \<lparr>m_root = Some (Node (Interval 5 8) 2 30 3
                  (Some (Node (Interval 2 3) 3 3 1 None None))
                  (Some (Node (Interval 12 18) 9 30 2
                     (Some (Node (Interval 10 20) 1 20 1 None None))
                     (Some (Node (Interval 25 30) 5 30 1 None None))))),
               m_size = 5\<rparr> = Inr (Some (9::nat))"
    unfolding b by simp
  have d: "set_iv (AnInterval (Interval 1 2)) 9 ?dup
       = Inr \<lparr>m_root = Some (Node (Interval 1 2) 9 2 2 None
                            (Some (Node (Interval 1 2) 1 2 1 None None))),
              m_size = 2\<rparr>"
    by (simp add: set_iv_def compareTo_def)
  from T2 have "\<exists>self'. set_iv (AnInterval (Interval 1 2)) 9 ?dup = Inr self'
           \<and> get (AnInterval (Interval 1 2)) self' = Inr (Some 9)" by blast
  then have e: "get (AnInterval (Interval 1 2))
        \<lparr>m_root = Some (Node (Interval 1 2) (9::nat) 2 2 None
                            (Some (Node (Interval 1 2) 1 2 1 None None))),
              m_size = 2\<rparr> = Inr (Some 9)"
    unfolding d by simp
  show ?thesis using w a b c w2 d e by (intro conjI)
qed

end
